theory Spec2Isabelle
  imports Main "HOL-Library.Monad_Syntax"
begin

section \<open>The data model\<close>

text \<open>
  The tree is the class \<^verbatim>\<open>RedBlackTree\<close> of \<^verbatim>\<open>red-black-tree.ts\<close>: a left-leaning
  red-black tree after Sedgewick. Its nodes come from \<^verbatim>\<open>red-black-node.ts\<close>.
\<close>

datatype color = Red | Black

text \<open>
  Modelled from the spec: the class \<^verbatim>\<open>Node\<close> (file \<^verbatim>\<open>red-black-node.ts\<close>) has the fields
  \<^verbatim>\<open>key\<close>, \<^verbatim>\<open>value\<close>, \<^verbatim>\<open>color\<close>, \<^verbatim>\<open>left\<close> and \<^verbatim>\<open>right\<close>; a fresh node is red and has no
  children. The type \<^verbatim>\<open>Node | null\<close> of the source is the whole datatype, \<open>Null\<close> being
  \<^verbatim>\<open>null\<close>. Every subtree has one owner, so in-place updates of a node are modelled by
  returning the updated subtree. This describes the calls that return; what a call that
  raises leaves in the nodes is modelled over a store of node objects further down.
\<close>

datatype ('k, 'v) node =
    Null
  | Node (color: color) (left: "('k, 'v) node") (key: 'k) (val: 'v) (right: "('k, 'v) node")

definition new_Node :: "'k \<Rightarrow> 'v \<Rightarrow> ('k, 'v) node" where
  "new_Node k v = Node Red Null k v Null"

text \<open>Assignments to single fields of a node.\<close>

fun set_color :: "color \<Rightarrow> ('k, 'v) node \<Rightarrow> ('k, 'v) node" where
  "set_color c' (Node c l k v r) = Node c' l k v r"
| "set_color c' Null = Null"

fun set_left :: "('k, 'v) node \<Rightarrow> ('k, 'v) node \<Rightarrow> ('k, 'v) node" where
  "set_left l' (Node c l k v r) = Node c l' k v r"
| "set_left l' Null = Null"

fun set_right :: "('k, 'v) node \<Rightarrow> ('k, 'v) node \<Rightarrow> ('k, 'v) node" where
  "set_right r' (Node c l k v r) = Node c l k v r'"
| "set_right r' Null = Null"

text \<open>
  Modelled from the spec: \<^verbatim>\<open>assert\<close> (module \<^verbatim>\<open>shared\<close>) fails fast when its condition is
  false. A failed assertion is the result \<open>None\<close>; every function that can reach an
  assertion returns an option.
\<close>

definition assert :: "bool \<Rightarrow> unit option" where
  "assert b = (if b then Some () else None)"

text \<open>
  Modelled from the spec: the ordering capability (module \<^verbatim>\<open>comparable\<close>) and the
  equality capability (module \<^verbatim>\<open>equatable\<close>) are a total order on the keys and the
  equality consistent with it, so keys are of a type of class \<open>linorder\<close>.
\<close>

definition equality :: "'k \<Rightarrow> 'k \<Rightarrow> bool" where
  "equality a b = (a = b)"

definition lessThan_key :: "'k::linorder \<Rightarrow> 'k \<Rightarrow> bool" where
  "lessThan_key a b = (a < b)"

definition lessThanOrEqual :: "'k::linorder \<Rightarrow> 'k \<Rightarrow> bool" where
  "lessThanOrEqual a b = (a \<le> b)"

definition greaterThanOrEqual :: "'k::linorder \<Rightarrow> 'k \<Rightarrow> bool" where
  "greaterThanOrEqual a b = (a \<ge> b)"

section \<open>Rotations and colour flips\<close>

fun isRed :: "('k, 'v) node \<Rightarrow> bool" where
  "isRed Null = False"
| "isRed (Node c l k v r) = (c = Red)"

definition flipColor :: "('k, 'v) node \<Rightarrow> ('k, 'v) node" where
  "flipColor node = set_color (if isRed node then Black else Red) node"

fun flipColors :: "('k, 'v) node \<Rightarrow> ('k, 'v) node option" where
  "flipColors Null = None"
| "flipColors (Node c l k v r) = do {
     let node = Node c l k v r;
     let node = flipColor node;
     assert (left node \<noteq> Null);
     let node = set_left (flipColor (left node)) node;
     assert (right node \<noteq> Null);
     let node = set_right (flipColor (right node)) node;
     Some node
   }"

text \<open>
  The functions below have a parameter of type \<^verbatim>\<open>Node\<close>, which excludes \<^verbatim>\<open>null\<close>: the
  equation for \<open>Null\<close> is there for totality only (reading a field of \<^verbatim>\<open>null\<close> fails).

  In a rotation the old root is linked below the new root and recoloured afterwards; the link
  is a reference, so the model links the recoloured node.
\<close>

fun rotateLeft :: "('k, 'v) node \<Rightarrow> ('k, 'v) node option" where
  "rotateLeft Null = None"
| "rotateLeft (Node c l k v r) = do {
     let node = Node c l k v r;
     let right = right node;
     assert (right \<noteq> Null);
     let node = set_right (left right) node;
     let right = set_color (color node) right;
     let node = set_color Red node;
     let right = set_left node right;
     Some right
   }"

fun rotateRight :: "('k, 'v) node \<Rightarrow> ('k, 'v) node option" where
  "rotateRight Null = None"
| "rotateRight (Node c l k v r) = do {
     let node = Node c l k v r;
     let left = left node;
     assert (left \<noteq> Null);
     let node = set_left (right left) node;
     let left = set_color (color node) left;
     let node = set_color Red node;
     let left = set_right node left;
     Some left
   }"

fun moveRedLeft :: "('k, 'v) node \<Rightarrow> ('k, 'v) node option" where
  "moveRedLeft Null = None"
| "moveRedLeft (Node c l k v r) = do {
     let node = Node c l k v r;
     node \<leftarrow> flipColors node;
     assert (right node \<noteq> Null);
     if isRed (left (right node)) then do {
       r \<leftarrow> rotateRight (right node);
       let node = set_right r node;
       node \<leftarrow> rotateLeft node;
       flipColors node
     } else Some node
   }"

fun moveRedRight :: "('k, 'v) node \<Rightarrow> ('k, 'v) node option" where
  "moveRedRight Null = None"
| "moveRedRight (Node c l k v r) = do {
     let node = Node c l k v r;
     node \<leftarrow> flipColors node;
     assert (left node \<noteq> Null);
     if isRed (left (left node)) then do {
       node \<leftarrow> rotateRight node;
       flipColors node
     } else Some node
   }"

fun fixUp :: "('k, 'v) node \<Rightarrow> ('k, 'v) node option" where
  "fixUp Null = None"
| "fixUp (Node c l k v r) = do {
     let node = Node c l k v r;
     node \<leftarrow> (if isRed (right node) \<and> \<not> isRed (left node) then rotateLeft node else Some node);
     node \<leftarrow> (if isRed (left node) then do {
                assert (left node \<noteq> Null);
                if isRed (left (left node)) then rotateRight node else Some node
              } else Some node);
     if isRed (left node) \<and> isRed (right node) then flipColors node else Some node
   }"

section \<open>The class \<^verbatim>\<open>RedBlackTree\<close>\<close>

record ('k, 'v) RedBlackTree =
  root :: "('k, 'v) node"
  tsize :: int

definition empty_tree :: "('k, 'v) RedBlackTree" where
  "empty_tree = \<lparr>root = Null, tsize = 0\<rparr>"

subsection \<open>Private methods\<close>

text \<open>
  The private methods \<^verbatim>\<open>#get\<close>, \<^verbatim>\<open>#set\<close>, ... are named \<open>get_node\<close>, \<open>set_node\<close>, ...
  Those that update the field \<^verbatim>\<open>#size\<close> take its value and return the new one. Where the
  parameter type of the source is \<^verbatim>\<open>Node\<close> without \<^verbatim>\<open>null\<close>, no caller passes \<open>Null\<close>.
\<close>

fun get_node :: "('k::linorder, 'v) node \<Rightarrow> 'k \<Rightarrow> ('k, 'v) node" where
  "get_node Null k = Null"
| "get_node (Node c l nk nv r) k =
     (if equality k nk then Node c l nk nv r
      else if lessThan_key k nk then get_node l k
      else get_node r k)"

fun min_node :: "('k, 'v) node \<Rightarrow> ('k, 'v) node" where
  "min_node (Node c l k v r) = (if l = Null then Node c l k v r else min_node l)"
| "min_node Null = Null"

fun max_node :: "('k, 'v) node \<Rightarrow> ('k, 'v) node" where
  "max_node (Node c l k v r) = (if r = Null then Node c l k v r else max_node r)"
| "max_node Null = Null"

fun previous_node :: "('k::linorder, 'v) node \<Rightarrow> 'k \<Rightarrow> ('k, 'v) node" where
  "previous_node Null k = Null"
| "previous_node (Node c l nk nv r) k =
     (if lessThanOrEqual k nk then previous_node l k
      else (let previous = previous_node r k in
            if previous \<noteq> Null then previous else Node c l nk nv r))"

fun next_node :: "('k::linorder, 'v) node \<Rightarrow> 'k \<Rightarrow> ('k, 'v) node" where
  "next_node Null k = Null"
| "next_node (Node c l nk nv r) k =
     (if greaterThanOrEqual k nk then next_node r k
      else (let next = next_node l k in
            if next \<noteq> Null then next else Node c l nk nv r))"

fun set_node :: "('k::linorder, 'v) node \<Rightarrow> 'k \<Rightarrow> 'v \<Rightarrow> int \<Rightarrow> (('k, 'v) node \<times> int) option" where
  "set_node Null k v sz = Some (new_Node k v, sz + 1)"
| "set_node (Node c l nk nv r) k v sz =
     (if equality k nk then do {
        node \<leftarrow> fixUp (Node c l nk v r);
        Some (node, sz)
      } else if lessThan_key k nk then do {
        (l', sz) \<leftarrow> set_node l k v sz;
        node \<leftarrow> fixUp (Node c l' nk nv r);
        Some (node, sz)
      } else do {
        (r', sz) \<leftarrow> set_node r k v sz;
        node \<leftarrow> fixUp (Node c l nk nv r');
        Some (node, sz)
      })"

subsection \<open>Basic facts about the primitives\<close>

lemma assert_simps [simp]:
  "assert True = Some ()" "assert False = None"
  by (simp_all add: assert_def)

lemma assert_bind [simp]: "(assert b \<bind> f) = (if b then f () else None)"
  by (simp add: assert_def)

lemma flipColor_simps [simp]:
  "flipColor Null = Null"
  "flipColor (Node c l k v r) = Node (if c = Red then Black else Red) l k v r"
  by (simp_all add: flipColor_def)

declare flipColors.simps(2) [simp del] rotateLeft.simps(2) [simp del] rotateRight.simps(2) [simp del]

lemma flipColors_Node [simp]:
  "flipColors (Node c l k v r) =
     (if l = Null \<or> r = Null then None
      else Some (Node (if c = Red then Black else Red) (flipColor l) k v (flipColor r)))"
  by (simp add: flipColors.simps Let_def)

lemma rotateLeft_Node [simp]:
  "rotateLeft (Node c l k v Null) = None"
  "rotateLeft (Node c l k v (Node rc rl rk rv rr)) = Some (Node c (Node Red l k v rl) rk rv rr)"
  by (simp_all add: rotateLeft.simps)

lemma rotateRight_Node [simp]:
  "rotateRight (Node c Null k v r) = None"
  "rotateRight (Node c (Node lc ll lk lv lr) k v r) = Some (Node c ll lk lv (Node Red lr k v r))"
  by (simp_all add: rotateRight.simps)

lemma size_flipColor [simp]: "size (flipColor t) = size t"
  by (cases t) simp_all

lemma flipColor_eq_Null [simp]: "(flipColor t = Null) = (t = Null)"
  by (cases t) simp_all

lemma size_rotateRight: "rotateRight n = Some n' \<Longrightarrow> size n' = size n \<and> n' \<noteq> Null"
  by (cases n; cases "left n") auto

lemma size_rotateLeft: "rotateLeft n = Some n' \<Longrightarrow> size n' = size n \<and> n' \<noteq> Null"
  by (cases n; cases "right n") auto

declare moveRedLeft.simps(2) [simp del] moveRedRight.simps(2) [simp del] fixUp.simps(2) [simp del]

lemma size_flipColors: "flipColors n = Some n' \<Longrightarrow> size n' = size n \<and> n' \<noteq> Null"
  by (cases n) (auto split: if_splits)

lemma size_moveRedLeft:
  assumes a: "moveRedLeft n = Some n'"
  shows "size n' = size n \<and> n' \<noteq> Null"
proof (cases n)
  case Null
  with a show ?thesis by simp
next
  case (Node c l k v r)
  show ?thesis
  proof (cases "isRed (left (flipColor r))")
    case False
    with a Node show ?thesis by (auto simp: moveRedLeft.simps split: if_splits)
  next
    case True
    with a Node obtain r1 n1 where
      "rotateRight (flipColor r) = Some r1"
      "rotateLeft (Node (if c = Red then Black else Red) (flipColor l) k v r1) = Some n1"
      "flipColors n1 = Some n'" and "l \<noteq> Null" "r \<noteq> Null"
      by (auto simp: moveRedLeft.simps Let_def split: if_splits bind_splits)
    then show ?thesis
      using Node size_rotateRight [of "flipColor r" r1]
        size_rotateLeft [of "Node (if c = Red then Black else Red) (flipColor l) k v r1" n1]
        size_flipColors [of n1 n']
      by simp
  qed
qed

lemma size_moveRedRight:
  assumes a: "moveRedRight n = Some n'"
  shows "size n' = size n \<and> n' \<noteq> Null"
proof (cases n)
  case Null
  with a show ?thesis by simp
next
  case (Node c l k v r)
  show ?thesis
  proof (cases "isRed (left (flipColor l))")
    case False
    with a Node show ?thesis by (auto simp: moveRedRight.simps split: if_splits)
  next
    case True
    with a Node obtain n1 where
      "rotateRight (Node (if c = Red then Black else Red) (flipColor l) k v (flipColor r)) = Some n1"
      "flipColors n1 = Some n'" and "l \<noteq> Null" "r \<noteq> Null"
      by (auto simp: moveRedRight.simps Let_def split: if_splits bind_splits)
    then show ?thesis
      using Node size_rotateRight [of "Node (if c = Red then Black else Red) (flipColor l) k v (flipColor r)" n1]
        size_flipColors [of n1 n']
      by simp
  qed
qed

lemma size_left_less: "n \<noteq> Null \<Longrightarrow> size (left n) < size n"
  by (cases n) simp_all

lemma size_right_less: "n \<noteq> Null \<Longrightarrow> size (right n) < size n"
  by (cases n) simp_all

subsection \<open>The private delete methods\<close>

function deleteMin_node :: "('k, 'v) node \<Rightarrow> int \<Rightarrow> (('k, 'v) node \<times> int) option" where
  "deleteMin_node Null sz = None"
| "deleteMin_node (Node c l k v r) sz =
     (if l = Null then Some (Null, sz - 1)
      else do {
        node \<leftarrow> (if \<not> isRed l \<and> \<not> isRed (left l) then moveRedLeft (Node c l k v r)
                 else Some (Node c l k v r));
        assert (left node \<noteq> Null);
        (l', sz) \<leftarrow> deleteMin_node (left node) sz;
        node \<leftarrow> fixUp (set_left l' node);
        Some (node, sz)
      })"
  by pat_completeness auto
termination
proof (relation "measure (\<lambda>(n, sz). size n)", goal_cases)
  case 1
  show ?case by simp
next
  case (2 c l k v r sz node u)
  then have "size node = size (Node c l k v r) \<and> node \<noteq> Null"
    by (auto split: if_splits dest: size_moveRedLeft)
  then show ?case
    using size_left_less [of node] by simp
qed

declare deleteMin_node.simps(2) [simp del]

fun set_key :: "'k \<Rightarrow> ('k, 'v) node \<Rightarrow> ('k, 'v) node" where
  "set_key k' (Node c l k v r) = Node c l k' v r"
| "set_key k' Null = Null"

fun set_val :: "'v \<Rightarrow> ('k, 'v) node \<Rightarrow> ('k, 'v) node" where
  "set_val v' (Node c l k v r) = Node c l k v' r"
| "set_val v' Null = Null"

function deleteMax_node :: "('k, 'v) node \<Rightarrow> int \<Rightarrow> (('k, 'v) node \<times> int) option" where
  "deleteMax_node Null sz = None"
| "deleteMax_node (Node c l k v r) sz = do {
     node \<leftarrow> (if isRed l then rotateRight (Node c l k v r) else Some (Node c l k v r));
     if right node = Null then Some (Null, sz - 1)
     else do {
       node \<leftarrow> (if \<not> isRed (right node) \<and> \<not> isRed (left (right node)) then moveRedRight node
                else Some node);
       assert (right node \<noteq> Null);
       (r', sz) \<leftarrow> deleteMax_node (right node) sz;
       node \<leftarrow> fixUp (set_right r' node);
       Some (node, sz)
     }
   }"
  by pat_completeness auto
termination
proof (relation "measure (\<lambda>(n, sz). size n)", goal_cases)
  case 1
  show ?case by simp
next
  case (2 c l k v r sz node node' u)
  from 2(1) have a: "size node = size (Node c l k v r) \<and> node \<noteq> Null"
    by (auto split: if_splits dest: size_rotateRight)
  from 2(3) a have "size node' = size node \<and> node' \<noteq> Null"
    by (auto split: if_splits dest: size_moveRedRight)
  with a show ?case
    using size_right_less [of node'] by simp
qed

declare deleteMax_node.simps(2) [simp del]

function delete_node :: "('k::linorder, 'v) node \<Rightarrow> 'k \<Rightarrow> int \<Rightarrow> (('k, 'v) node \<times> int) option" where
  "delete_node Null k sz = None"
| "delete_node (Node c l nk nv r) k sz =
     (if lessThan_key k nk then do {
        assert (l \<noteq> Null);
        node \<leftarrow> (if \<not> isRed l then
                   (if \<not> isRed (left l) then moveRedLeft (Node c l nk nv r)
                    else Some (Node c l nk nv r))
                 else Some (Node c l nk nv r));
        assert (left node \<noteq> Null);
        (l', sz) \<leftarrow> delete_node (left node) k sz;
        node \<leftarrow> fixUp (set_left l' node);
        Some (node, sz)
      } else do {
        node \<leftarrow> (if isRed l then rotateRight (Node c l nk nv r) else Some (Node c l nk nv r));
        if equality k (key node) \<and> right node = Null then Some (Null, sz - 1)
        else do {
          node \<leftarrow> (if \<not> isRed (right node) then
                     (if right node \<noteq> Null \<and> \<not> isRed (left (right node)) then moveRedRight node
                      else Some node)
                   else Some node);
          (node, sz) \<leftarrow> (if equality k (key node) then do {
              assert (right node \<noteq> Null);
              let min = min_node (right node);
              let node = set_key (key min) node;
              let node = set_val (val min) node;
              (r', sz) \<leftarrow> deleteMin_node (right node) sz;
              Some (set_right r' node, sz)
            } else if right node \<noteq> Null then do {
              (r', sz) \<leftarrow> delete_node (right node) k sz;
              Some (set_right r' node, sz)
            } else Some (node, sz));
          node \<leftarrow> fixUp node;
          Some (node, sz)
        }
      })"
  by pat_completeness auto
termination
proof (relation "measure (\<lambda>(n, k, sz). size n)", goal_cases)
  case 1
  show ?case by simp
next
  case (2 c l nk nv r k sz u node u')
  then have "size node = size (Node c l nk nv r) \<and> node \<noteq> Null"
    by (auto split: if_splits dest: size_moveRedLeft)
  then show ?case
    using size_left_less [of node] by simp
next
  case (3 c l nk nv r k sz node node')
  from 3(2) have a: "size node = size (Node c l nk nv r) \<and> node \<noteq> Null"
    by (auto split: if_splits dest: size_rotateRight)
  from 3(4) a have "size node' = size node \<and> node' \<noteq> Null"
    by (auto split: if_splits dest: size_moveRedRight)
  with a show ?case
    using size_right_less [of node'] by simp
qed

declare delete_node.simps(2) [simp del]

subsection \<open>Public methods\<close>

text \<open>
  A public method takes the tree \<^verbatim>\<open>this\<close> and returns the updated tree, with the returned
  value where there is one. A result \<open>None\<close> is a failed assertion. An absent result
  (\<^verbatim>\<open>undefined\<close>) of a query is \<open>None\<close> as well, the queries reach no assertion.
\<close>

definition get_tree :: "('k::linorder, 'v) RedBlackTree \<Rightarrow> 'k \<Rightarrow> 'v option" where
  "get_tree this k =
     (let node = get_node (root this) k in
      if node = Null then None else Some (val node))"

definition min_tree :: "('k, 'v) RedBlackTree \<Rightarrow> 'k option" where
  "min_tree this = (if root this = Null then None else Some (key (min_node (root this))))"

definition max_tree :: "('k, 'v) RedBlackTree \<Rightarrow> 'k option" where
  "max_tree this = (if root this = Null then None else Some (key (max_node (root this))))"

definition previous_tree :: "('k::linorder, 'v) RedBlackTree \<Rightarrow> 'k \<Rightarrow> 'k option" where
  "previous_tree this k =
     (let node = previous_node (root this) k in
      if node = Null then None else Some (key node))"

definition next_tree :: "('k::linorder, 'v) RedBlackTree \<Rightarrow> 'k \<Rightarrow> 'k option" where
  "next_tree this k =
     (let node = next_node (root this) k in
      if node = Null then None else Some (key node))"

definition set_tree ::
  "('k::linorder, 'v) RedBlackTree \<Rightarrow> 'k \<Rightarrow> 'v \<Rightarrow> ('k, 'v) RedBlackTree option" where
  "set_tree this k v = do {
     (node, sz) \<leftarrow> set_node (root this) k v (tsize this);
     let this = this\<lparr>root := node, tsize := sz\<rparr>;
     let this = this\<lparr>root := set_color Black (root this)\<rparr>;
     Some this
   }"

definition deleteMin_tree ::
  "('k, 'v) RedBlackTree \<Rightarrow> (bool \<times> ('k, 'v) RedBlackTree) option" where
  "deleteMin_tree this =
     (if root this = Null then Some (False, this)
      else do {
        let size = tsize this;
        (node, sz) \<leftarrow> deleteMin_node (root this) (tsize this);
        let this = this\<lparr>root := node, tsize := sz\<rparr>;
        if root this = Null then Some (tsize this < size, this)
        else do {
          let this = this\<lparr>root := set_color Black (root this)\<rparr>;
          Some (tsize this < size, this)
        }
      })"

definition deleteMax_tree ::
  "('k, 'v) RedBlackTree \<Rightarrow> (bool \<times> ('k, 'v) RedBlackTree) option" where
  "deleteMax_tree this =
     (if root this = Null then Some (False, this)
      else do {
        let size = tsize this;
        (node, sz) \<leftarrow> deleteMax_node (root this) (tsize this);
        let this = this\<lparr>root := node, tsize := sz\<rparr>;
        if root this = Null then Some (tsize this < size, this)
        else do {
          let this = this\<lparr>root := set_color Black (root this)\<rparr>;
          Some (tsize this < size, this)
        }
      })"

definition delete_tree ::
  "('k::linorder, 'v) RedBlackTree \<Rightarrow> 'k \<Rightarrow> (bool \<times> ('k, 'v) RedBlackTree) option" where
  "delete_tree this k =
     (if root this = Null then Some (False, this)
      else do {
        let size = tsize this;
        (node, sz) \<leftarrow> delete_node (root this) k (tsize this);
        let this = this\<lparr>root := node, tsize := sz\<rparr>;
        if root this = Null then Some (tsize this < size, this)
        else do {
          let this = this\<lparr>root := set_color Black (root this)\<rparr>;
          Some (tsize this < size, this)
        }
      })"

definition clear :: "('k, 'v) RedBlackTree \<Rightarrow> ('k, 'v) RedBlackTree" where
  "clear this = this\<lparr>root := Null, tsize := 0\<rparr>"

text \<open>The constructor: the fields start as in \<open>empty_tree\<close>, then every entry is set.\<close>

fun set_entries ::
  "('k::linorder, 'v) RedBlackTree \<Rightarrow> ('k \<times> 'v) list \<Rightarrow> ('k, 'v) RedBlackTree option" where
  "set_entries this [] = Some this"
| "set_entries this (entry # iterable) = do {
     this \<leftarrow> set_tree this (fst entry) (snd entry);
     set_entries this iterable
   }"

definition new_RedBlackTree :: "('k::linorder \<times> 'v) list \<Rightarrow> ('k, 'v) RedBlackTree option" where
  "new_RedBlackTree iterable = set_entries empty_tree iterable"

subsection \<open>Iterators\<close>

text \<open>
  The iterator of \<^verbatim>\<open>entries()\<close> is a closure over the variables \<^verbatim>\<open>node\<close> and \<^verbatim>\<open>stack\<close>; its
  state is the pair of them, the top of the stack first. A call of \<^verbatim>\<open>next()\<close> returns the
  result and the new state; the result \<open>None\<close> is \<^verbatim>\<open>{done: true}\<close>.
\<close>

type_synonym ('k, 'v) entries_iterator = "('k, 'v) node \<times> ('k, 'v) node list"

definition entries :: "('k, 'v) RedBlackTree \<Rightarrow> ('k, 'v) entries_iterator" where
  "entries this = (root this, [])"

function entries_next ::
  "('k, 'v) entries_iterator \<Rightarrow> (('k \<times> 'v) option \<times> ('k, 'v) entries_iterator) option" where
  "entries_next (node, stack) =
     (if node \<noteq> Null \<or> length stack > 0 then
        (if node \<noteq> Null then entries_next (left node, node # stack)
         else do {
           let last = (case stack of [] \<Rightarrow> None | n # ns \<Rightarrow> Some n);
           let stack = tl stack;
           assert (last \<noteq> None);
           let node = the last;
           let entry = (key node, val node);
           let node = right node;
           Some (Some entry, (node, stack))
         })
      else Some (None, (node, stack)))"
  by pat_completeness auto
termination
  by (relation "measure (\<lambda>(node, stack). size node)") (auto simp: size_left_less)

declare entries_next.simps [simp del]

definition symbol_iterator :: "('k, 'v) RedBlackTree \<Rightarrow> ('k, 'v) entries_iterator" where
  "symbol_iterator this = entries this"

definition keys :: "('k, 'v) RedBlackTree \<Rightarrow> ('k, 'v) entries_iterator" where
  "keys this = (let iterator = entries this in iterator)"

definition keys_next ::
  "('k, 'v) entries_iterator \<Rightarrow> ('k option \<times> ('k, 'v) entries_iterator) option" where
  "keys_next iterator = do {
     (next, iterator) \<leftarrow> entries_next iterator;
     case next of
       None \<Rightarrow> Some (None, iterator)
     | Some entry \<Rightarrow> Some (Some (fst entry), iterator)
   }"

definition values_iterator :: "('k, 'v) RedBlackTree \<Rightarrow> ('k, 'v) entries_iterator" where
  "values_iterator this = (let iterator = entries this in iterator)"

definition values_next ::
  "('k, 'v) entries_iterator \<Rightarrow> ('v option \<times> ('k, 'v) entries_iterator) option" where
  "values_next iterator = do {
     (next, iterator) \<leftarrow> entries_next iterator;
     case next of
       None \<Rightarrow> Some (None, iterator)
     | Some entry \<Rightarrow> Some (Some (snd entry), iterator)
   }"

text \<open>
  The sequence an iterator yields: \<^verbatim>\<open>next()\<close> is called until it reports \<^verbatim>\<open>done\<close>. The
  result is \<open>None\<close> when a call fails an assertion or the calls never report \<^verbatim>\<open>done\<close>.
\<close>

partial_function (option) yielded :: "('s \<Rightarrow> ('a option \<times> 's) option) \<Rightarrow> 's \<Rightarrow> 'a list option" where
  "yielded nxt it = do {
     (res, it) \<leftarrow> nxt it;
     case res of
       None \<Rightarrow> Some []
     | Some x \<Rightarrow> do { xs \<leftarrow> yielded nxt it; Some (x # xs) }
   }"

section \<open>The same methods over a store of node objects\<close>

text \<open>
  The functions above return the updated subtree, which describes every call that returns. A
  call that raises has no result, but the fields it assigned before the raise stay assigned,
  and the caller still holds the tree object. To follow the object through a raise, the
  mutating functions and methods are modelled a second time, statement by statement, over an
  explicit store: a node is a reference, the index of its object in the list of allocated
  node objects; an assignment to a field updates that object in the list, and \<^verbatim>\<open>new Node\<close>,
  the only source of references, appends an object. The private fields \<^verbatim>\<open>#root\<close> and \<^verbatim>\<open>#size\<close>
  of the tree object are part of the store. The names carry the suffix \<open>_at\<close> where the
  source passes a node and \<open>_store\<close> for the public methods.
\<close>

text \<open>
  Modelled from the spec: the fields of the class \<^verbatim>\<open>Node\<close> (file \<^verbatim>\<open>red-black-node.ts\<close>), as for
  the datatype \<open>node\<close>. A reference of the type \<^verbatim>\<open>Node | null\<close> is a \<open>ref option\<close>.
\<close>

type_synonym ref = nat

record ('k, 'v) node_object =
  color_field :: color
  key_field :: 'k
  value_field :: 'v
  left_field :: "ref option"
  right_field :: "ref option"

record ('k, 'v) store =
  objects :: "('k, 'v) node_object list"
  root_field :: "ref option"
  size_field :: int

text \<open>The store of \<^verbatim>\<open>new RedBlackTree()\<close>: no node, \<^verbatim>\<open>#root = null\<close>, \<^verbatim>\<open>#size = 0\<close>.\<close>

definition new_store :: "('k, 'v) store" where
  "new_store = \<lparr>objects = [], root_field = None, size_field = 0\<rparr>"

text \<open>
  Modelled from the spec: a failed \<^verbatim>\<open>assert\<close> (module \<^verbatim>\<open>shared\<close>) raises. A call ends in
  \<open>Returns\<close> with its value and the store, or in \<open>Raises\<close> with the store as it is when the
  assertion fails; nothing is undone.
\<close>

datatype ('a, 's) result = Returns 'a 's | Raises 's

text \<open>Reading and assigning the fields of the node a reference points to.\<close>

definition color_at :: "('k, 'v) store \<Rightarrow> ref \<Rightarrow> color" where
  "color_at s node = color_field (objects s ! node)"

definition key_at :: "('k, 'v) store \<Rightarrow> ref \<Rightarrow> 'k" where
  "key_at s node = key_field (objects s ! node)"

definition value_at :: "('k, 'v) store \<Rightarrow> ref \<Rightarrow> 'v" where
  "value_at s node = value_field (objects s ! node)"

definition left_at :: "('k, 'v) store \<Rightarrow> ref \<Rightarrow> ref option" where
  "left_at s node = left_field (objects s ! node)"

definition right_at :: "('k, 'v) store \<Rightarrow> ref \<Rightarrow> ref option" where
  "right_at s node = right_field (objects s ! node)"

definition assign_color :: "ref \<Rightarrow> color \<Rightarrow> ('k, 'v) store \<Rightarrow> ('k, 'v) store" where
  "assign_color node c s =
     s\<lparr>objects := (objects s)[node := (objects s ! node)\<lparr>color_field := c\<rparr>]\<rparr>"

definition assign_key :: "ref \<Rightarrow> 'k \<Rightarrow> ('k, 'v) store \<Rightarrow> ('k, 'v) store" where
  "assign_key node k s =
     s\<lparr>objects := (objects s)[node := (objects s ! node)\<lparr>key_field := k\<rparr>]\<rparr>"

definition assign_value :: "ref \<Rightarrow> 'v \<Rightarrow> ('k, 'v) store \<Rightarrow> ('k, 'v) store" where
  "assign_value node v s =
     s\<lparr>objects := (objects s)[node := (objects s ! node)\<lparr>value_field := v\<rparr>]\<rparr>"

definition assign_left :: "ref \<Rightarrow> ref option \<Rightarrow> ('k, 'v) store \<Rightarrow> ('k, 'v) store" where
  "assign_left node l s =
     s\<lparr>objects := (objects s)[node := (objects s ! node)\<lparr>left_field := l\<rparr>]\<rparr>"

definition assign_right :: "ref \<Rightarrow> ref option \<Rightarrow> ('k, 'v) store \<Rightarrow> ('k, 'v) store" where
  "assign_right node r s =
     s\<lparr>objects := (objects s)[node := (objects s ! node)\<lparr>right_field := r\<rparr>]\<rparr>"

text \<open>\<^verbatim>\<open>new Node(key, value)\<close>: the reference of the new object and the store that holds it.\<close>

definition allocate_Node :: "'k \<Rightarrow> 'v \<Rightarrow> ('k, 'v) store \<Rightarrow> ref \<times> ('k, 'v) store" where
  "allocate_Node k v s =
     (length (objects s),
      s\<lparr>objects := objects s @
         [\<lparr>color_field = Red, key_field = k, value_field = v,
           left_field = None, right_field = None\<rparr>]\<rparr>)"

subsection \<open>Rotations and colour flips\<close>

definition isRed_at :: "('k, 'v) store \<Rightarrow> ref option \<Rightarrow> bool" where
  "isRed_at s node = (case node of None \<Rightarrow> False | Some n \<Rightarrow> color_at s n = Red)"

definition flipColor_at :: "ref \<Rightarrow> ('k, 'v) store \<Rightarrow> ('k, 'v) store" where
  "flipColor_at node s = assign_color node (if isRed_at s (Some node) then Black else Red) s"

definition flipColors_at :: "ref \<Rightarrow> ('k, 'v) store \<Rightarrow> (unit, ('k, 'v) store) result" where
  "flipColors_at node s =
     (let s = flipColor_at node s in
      case left_at s node of
        None \<Rightarrow> Raises s
      | Some l \<Rightarrow>
          (let s = flipColor_at l s in
           case right_at s node of
             None \<Rightarrow> Raises s
           | Some r \<Rightarrow> Returns () (flipColor_at r s)))"

definition rotateLeft_at :: "ref \<Rightarrow> ('k, 'v) store \<Rightarrow> (ref, ('k, 'v) store) result" where
  "rotateLeft_at node s =
     (case right_at s node of
        None \<Rightarrow> Raises s
      | Some r \<Rightarrow>
          (let s = assign_right node (left_at s r) s;
               s = assign_left r (Some node) s;
               s = assign_color r (color_at s node) s;
               s = assign_color node Red s
           in Returns r s))"

definition rotateRight_at :: "ref \<Rightarrow> ('k, 'v) store \<Rightarrow> (ref, ('k, 'v) store) result" where
  "rotateRight_at node s =
     (case left_at s node of
        None \<Rightarrow> Raises s
      | Some l \<Rightarrow>
          (let s = assign_left node (right_at s l) s;
               s = assign_right l (Some node) s;
               s = assign_color l (color_at s node) s;
               s = assign_color node Red s
           in Returns l s))"

definition moveRedLeft_at :: "ref \<Rightarrow> ('k, 'v) store \<Rightarrow> (ref, ('k, 'v) store) result" where
  "moveRedLeft_at node s =
     (case flipColors_at node s of
        Raises s \<Rightarrow> Raises s
      | Returns u s \<Rightarrow>
          (case right_at s node of
             None \<Rightarrow> Raises s
           | Some r \<Rightarrow>
               if isRed_at s (left_at s r) then
                 (case rotateRight_at r s of
                    Raises s \<Rightarrow> Raises s
                  | Returns r s \<Rightarrow>
                      (case rotateLeft_at node (assign_right node (Some r) s) of
                         Raises s \<Rightarrow> Raises s
                       | Returns node s \<Rightarrow>
                           (case flipColors_at node s of
                              Raises s \<Rightarrow> Raises s
                            | Returns u s \<Rightarrow> Returns node s)))
               else Returns node s))"

definition moveRedRight_at :: "ref \<Rightarrow> ('k, 'v) store \<Rightarrow> (ref, ('k, 'v) store) result" where
  "moveRedRight_at node s =
     (case flipColors_at node s of
        Raises s \<Rightarrow> Raises s
      | Returns u s \<Rightarrow>
          (case left_at s node of
             None \<Rightarrow> Raises s
           | Some l \<Rightarrow>
               if isRed_at s (left_at s l) then
                 (case rotateRight_at node s of
                    Raises s \<Rightarrow> Raises s
                  | Returns node s \<Rightarrow>
                      (case flipColors_at node s of
                         Raises s \<Rightarrow> Raises s
                       | Returns u s \<Rightarrow> Returns node s))
               else Returns node s))"

definition fixUp_at :: "ref \<Rightarrow> ('k, 'v) store \<Rightarrow> (ref, ('k, 'v) store) result" where
  "fixUp_at node s =
     (case (if isRed_at s (right_at s node) \<and> \<not> isRed_at s (left_at s node)
            then rotateLeft_at node s else Returns node s) of
        Raises s \<Rightarrow> Raises s
      | Returns node s \<Rightarrow>
          (case (if isRed_at s (left_at s node) then
                   (case left_at s node of
                      None \<Rightarrow> Raises s
                    | Some l \<Rightarrow>
                        if isRed_at s (left_at s l) then rotateRight_at node s
                        else Returns node s)
                 else Returns node s) of
             Raises s \<Rightarrow> Raises s
           | Returns node s \<Rightarrow>
               if isRed_at s (left_at s node) \<and> isRed_at s (right_at s node) then
                 (case flipColors_at node s of
                    Raises s \<Rightarrow> Raises s
                  | Returns u s \<Rightarrow> Returns node s)
               else Returns node s))"

subsection \<open>Private methods\<close>

text \<open>
  The recursive methods follow references, so they are partial functions: the result \<open>None\<close>
  stands for a recursion that does not end, which needs a store whose links form a cycle.
  \<open>returns_node\<close> turns the node returned by \<open>fixUp_at\<close> into a result of the type
  \<^verbatim>\<open>Node | null\<close> that the delete methods return.
\<close>

definition returns_node :: "(ref, 's) result \<Rightarrow> (ref option, 's) result" where
  "returns_node res =
     (case res of Raises s \<Rightarrow> Raises s | Returns node s \<Rightarrow> Returns (Some node) s)"

partial_function (option) min_at :: "ref \<Rightarrow> ('k, 'v) store \<Rightarrow> ref option" where
  "min_at node s = (case left_at s node of None \<Rightarrow> Some node | Some l \<Rightarrow> min_at l s)"

partial_function (option) set_at ::
  "ref option \<Rightarrow> 'k::linorder \<Rightarrow> 'v \<Rightarrow> ('k, 'v) store \<Rightarrow> (ref, ('k, 'v) store) result option" where
  "set_at node k v s =
     (case node of
        None \<Rightarrow>
          (case allocate_Node k v (s\<lparr>size_field := size_field s + 1\<rparr>) of
             (n, s) \<Rightarrow> Some (Returns n s))
      | Some node \<Rightarrow>
          if equality k (key_at s node) then Some (fixUp_at node (assign_value node v s))
          else if lessThan_key k (key_at s node) then do {
            res \<leftarrow> set_at (left_at s node) k v s;
            case res of
              Raises s \<Rightarrow> Some (Raises s)
            | Returns l s \<Rightarrow> Some (fixUp_at node (assign_left node (Some l) s))
          } else do {
            res \<leftarrow> set_at (right_at s node) k v s;
            case res of
              Raises s \<Rightarrow> Some (Raises s)
            | Returns r s \<Rightarrow> Some (fixUp_at node (assign_right node (Some r) s))
          })"

partial_function (option) deleteMin_at ::
  "ref \<Rightarrow> ('k, 'v) store \<Rightarrow> (ref option, ('k, 'v) store) result option" where
  "deleteMin_at node s =
     (case left_at s node of
        None \<Rightarrow> Some (Returns None (s\<lparr>size_field := size_field s - 1\<rparr>))
      | Some l \<Rightarrow>
          (case (if \<not> isRed_at s (Some l) \<and> \<not> isRed_at s (left_at s l)
                 then moveRedLeft_at node s else Returns node s) of
             Raises s \<Rightarrow> Some (Raises s)
           | Returns node s \<Rightarrow>
               (case left_at s node of
                  None \<Rightarrow> Some (Raises s)
                | Some l \<Rightarrow> do {
                    res \<leftarrow> deleteMin_at l s;
                    case res of
                      Raises s \<Rightarrow> Some (Raises s)
                    | Returns l s \<Rightarrow> Some (returns_node (fixUp_at node (assign_left node l s)))
                  })))"

partial_function (option) deleteMax_at ::
  "ref \<Rightarrow> ('k, 'v) store \<Rightarrow> (ref option, ('k, 'v) store) result option" where
  "deleteMax_at node s =
     (case (if isRed_at s (left_at s node) then rotateRight_at node s else Returns node s) of
        Raises s \<Rightarrow> Some (Raises s)
      | Returns node s \<Rightarrow>
          (case right_at s node of
             None \<Rightarrow> Some (Returns None (s\<lparr>size_field := size_field s - 1\<rparr>))
           | Some r \<Rightarrow>
               (case (if \<not> isRed_at s (Some r) \<and> \<not> isRed_at s (left_at s r)
                      then moveRedRight_at node s else Returns node s) of
                  Raises s \<Rightarrow> Some (Raises s)
                | Returns node s \<Rightarrow>
                    (case right_at s node of
                       None \<Rightarrow> Some (Raises s)
                     | Some r \<Rightarrow> do {
                         res \<leftarrow> deleteMax_at r s;
                         case res of
                           Raises s \<Rightarrow> Some (Raises s)
                         | Returns r s \<Rightarrow>
                             Some (returns_node (fixUp_at node (assign_right node r s)))
                       }))))"

partial_function (option) delete_at ::
  "ref \<Rightarrow> 'k::linorder \<Rightarrow> ('k, 'v) store \<Rightarrow> (ref option, ('k, 'v) store) result option" where
  "delete_at node k s =
     (if lessThan_key k (key_at s node) then
        (case left_at s node of
           None \<Rightarrow> Some (Raises s)
         | Some l \<Rightarrow>
             (case (if \<not> isRed_at s (Some l) then
                      (if \<not> isRed_at s (left_at s l) then moveRedLeft_at node s
                       else Returns node s)
                    else Returns node s) of
                Raises s \<Rightarrow> Some (Raises s)
              | Returns node s \<Rightarrow>
                  (case left_at s node of
                     None \<Rightarrow> Some (Raises s)
                   | Some l \<Rightarrow> do {
                       res \<leftarrow> delete_at l k s;
                       case res of
                         Raises s \<Rightarrow> Some (Raises s)
                       | Returns l s \<Rightarrow>
                           Some (returns_node (fixUp_at node (assign_left node l s)))
                     })))
      else
        (case (if isRed_at s (left_at s node) then rotateRight_at node s else Returns node s) of
           Raises s \<Rightarrow> Some (Raises s)
         | Returns node s \<Rightarrow>
             if equality k (key_at s node) \<and> right_at s node = None then
               Some (Returns None (s\<lparr>size_field := size_field s - 1\<rparr>))
             else
               (case (if \<not> isRed_at s (right_at s node) then
                        (case right_at s node of
                           None \<Rightarrow> Returns node s
                         | Some r \<Rightarrow>
                             if \<not> isRed_at s (left_at s r) then moveRedRight_at node s
                             else Returns node s)
                      else Returns node s) of
                  Raises s \<Rightarrow> Some (Raises s)
                | Returns node s \<Rightarrow>
                    if equality k (key_at s node) then
                      (case right_at s node of
                         None \<Rightarrow> Some (Raises s)
                       | Some r \<Rightarrow> do {
                           m \<leftarrow> min_at r s;
                           res \<leftarrow> deleteMin_at r
                                   (assign_value node (value_at s m) (assign_key node (key_at s m) s));
                           case res of
                             Raises s \<Rightarrow> Some (Raises s)
                           | Returns r s \<Rightarrow>
                               Some (returns_node (fixUp_at node (assign_right node r s)))
                         })
                    else
                      (case right_at s node of
                         None \<Rightarrow> Some (returns_node (fixUp_at node s))
                       | Some r \<Rightarrow> do {
                           res \<leftarrow> delete_at r k s;
                           case res of
                             Raises s \<Rightarrow> Some (Raises s)
                           | Returns r s \<Rightarrow>
                               Some (returns_node (fixUp_at node (assign_right node r s)))
                         }))))"

subsection \<open>Public methods\<close>

text \<open>
  What a public method returns: the tree itself (\<^verbatim>\<open>set\<close>), a boolean (the delete methods) or
  nothing (\<^verbatim>\<open>clear\<close>). The assignment to \<^verbatim>\<open>#root\<close> follows the call of the private method, so
  when that call raises, \<^verbatim>\<open>#root\<close> keeps the reference it held.
\<close>

datatype answer = This | Bool bool | Void

definition set_store ::
  "'k::linorder \<Rightarrow> 'v \<Rightarrow> ('k, 'v) store \<Rightarrow> (answer, ('k, 'v) store) result option" where
  "set_store k v s = do {
     res \<leftarrow> set_at (root_field s) k v s;
     case res of
       Raises s \<Rightarrow> Some (Raises s)
     | Returns node s \<Rightarrow>
         (let s = s\<lparr>root_field := Some node\<rparr>;
              s = assign_color node Black s
          in Some (Returns This s))
   }"

definition deleteMin_store :: "('k, 'v) store \<Rightarrow> (answer, ('k, 'v) store) result option" where
  "deleteMin_store s =
     (case root_field s of
        None \<Rightarrow> Some (Returns (Bool False) s)
      | Some r \<Rightarrow> do {
          let sz = size_field s;
          res \<leftarrow> deleteMin_at r s;
          case res of
            Raises s \<Rightarrow> Some (Raises s)
          | Returns node s \<Rightarrow>
              (let s = s\<lparr>root_field := node\<rparr> in
               case root_field s of
                 None \<Rightarrow> Some (Returns (Bool (size_field s < sz)) s)
               | Some r \<Rightarrow>
                   (let s = assign_color r Black s in Some (Returns (Bool (size_field s < sz)) s)))
        })"

definition deleteMax_store :: "('k, 'v) store \<Rightarrow> (answer, ('k, 'v) store) result option" where
  "deleteMax_store s =
     (case root_field s of
        None \<Rightarrow> Some (Returns (Bool False) s)
      | Some r \<Rightarrow> do {
          let sz = size_field s;
          res \<leftarrow> deleteMax_at r s;
          case res of
            Raises s \<Rightarrow> Some (Raises s)
          | Returns node s \<Rightarrow>
              (let s = s\<lparr>root_field := node\<rparr> in
               case root_field s of
                 None \<Rightarrow> Some (Returns (Bool (size_field s < sz)) s)
               | Some r \<Rightarrow>
                   (let s = assign_color r Black s in Some (Returns (Bool (size_field s < sz)) s)))
        })"

definition delete_store ::
  "'k::linorder \<Rightarrow> ('k, 'v) store \<Rightarrow> (answer, ('k, 'v) store) result option" where
  "delete_store k s =
     (case root_field s of
        None \<Rightarrow> Some (Returns (Bool False) s)
      | Some r \<Rightarrow> do {
          let sz = size_field s;
          res \<leftarrow> delete_at r k s;
          case res of
            Raises s \<Rightarrow> Some (Raises s)
          | Returns node s \<Rightarrow>
              (let s = s\<lparr>root_field := node\<rparr> in
               case root_field s of
                 None \<Rightarrow> Some (Returns (Bool (size_field s < sz)) s)
               | Some r \<Rightarrow>
                   (let s = assign_color r Black s in Some (Returns (Bool (size_field s < sz)) s)))
        })"

definition clear_store :: "('k, 'v) store \<Rightarrow> ('k, 'v) store" where
  "clear_store s = s\<lparr>root_field := None, size_field := 0\<rparr>"

subsection \<open>The tree a store holds\<close>

text \<open>
  The nodes reachable from a reference, read as a value of the datatype \<open>node\<close>, and the tree
  object read as a record: what the methods that only read (\<^verbatim>\<open>get\<close>, \<^verbatim>\<open>min\<close>, \<^verbatim>\<open>entries\<close>, ...)
  see.
\<close>

partial_function (option) subtree :: "('k, 'v) store \<Rightarrow> ref option \<Rightarrow> ('k, 'v) node option" where
  "subtree s node =
     (case node of
        None \<Rightarrow> Some Null
      | Some n \<Rightarrow> do {
          l \<leftarrow> subtree s (left_at s n);
          r \<leftarrow> subtree s (right_at s n);
          Some (Node (color_at s n) l (key_at s n) (value_at s n) r)
        })"

definition tree_of :: "('k, 'v) store \<Rightarrow> ('k, 'v) RedBlackTree option" where
  "tree_of s = map_option (\<lambda>t. \<lparr>root = t, tsize = size_field s\<rparr>) (subtree s (root_field s))"

subsection \<open>Sequences of calls\<close>

text \<open>
  A caller that holds one tree object and calls its mutating methods one after the other,
  each call in a \<^verbatim>\<open>try\<close> block whose \<^verbatim>\<open>catch\<close> goes on with the next call. \<open>calls_store\<close> gives
  the answer of every call, \<open>None\<close> for a call that raised, and the store after the last call.
\<close>

datatype ('k, 'v) call =
  Call_set 'k 'v | Call_delete 'k | Call_deleteMin | Call_deleteMax | Call_clear

fun call_store ::
  "('k::linorder, 'v) call \<Rightarrow> ('k, 'v) store \<Rightarrow> (answer, ('k, 'v) store) result option" where
  "call_store (Call_set k v) s = set_store k v s"
| "call_store (Call_delete k) s = delete_store k s"
| "call_store Call_deleteMin s = deleteMin_store s"
| "call_store Call_deleteMax s = deleteMax_store s"
| "call_store Call_clear s = Some (Returns Void (clear_store s))"

fun calls_store ::
  "('k::linorder, 'v) call list \<Rightarrow> ('k, 'v) store \<Rightarrow>
   (answer option list \<times> ('k, 'v) store) option" where
  "calls_store [] s = Some ([], s)"
| "calls_store (c # cs) s = do {
     res \<leftarrow> call_store c s;
     case res of
       Raises s \<Rightarrow> map_option (apfst ((#) None)) (calls_store cs s)
     | Returns a s \<Rightarrow> map_option (apfst ((#) (Some a))) (calls_store cs s)
   }"

section \<open>The vocabulary of the specification\<close>

text \<open>The entries of a subtree in in-order, its keys, and the order invariant.\<close>

fun inorder :: "('k, 'v) node \<Rightarrow> ('k \<times> 'v) list" where
  "inorder Null = []"
| "inorder (Node c l k v r) = inorder l @ (k, v) # inorder r"

definition node_keys :: "('k, 'v) node \<Rightarrow> 'k list" where
  "node_keys t = map fst (inorder t)"

definition ordered :: "('k::linorder, 'v) node \<Rightarrow> bool" where
  "ordered t = sorted_wrt (<) (node_keys t)"

text \<open>
  Null links are black. \<open>noRedRight\<close>: no node has a red right child. \<open>noRedLeftLeft\<close>: no
  node has a red left child whose own left child is red. \<open>blackLinks\<close> lists, for every path
  from a node down to a null link, the number of black links the path crosses; the tree is
  balanced when all these numbers are equal.
\<close>

fun noRedRight :: "('k, 'v) node \<Rightarrow> bool" where
  "noRedRight Null = True"
| "noRedRight (Node c l k v r) = (\<not> isRed r \<and> noRedRight l \<and> noRedRight r)"

fun noRedLeftLeft :: "('k, 'v) node \<Rightarrow> bool" where
  "noRedLeftLeft Null = True"
| "noRedLeftLeft (Node c l k v r) =
     (\<not> (isRed l \<and> isRed (left l)) \<and> noRedLeftLeft l \<and> noRedLeftLeft r)"

fun blackLinks :: "('k, 'v) node \<Rightarrow> nat list" where
  "blackLinks Null = [0]"
| "blackLinks (Node c l k v r) =
     map (\<lambda>n. n + (if isRed l then 0 else 1)) (blackLinks l) @
     map (\<lambda>n. n + (if isRed r then 0 else 1)) (blackLinks r)"

definition blackBalanced :: "('k, 'v) node \<Rightarrow> bool" where
  "blackBalanced t = list_all (\<lambda>n. n = hd (blackLinks t)) (blackLinks t)"

definition rootBlack :: "('k, 'v) node \<Rightarrow> bool" where
  "rootBlack t = (t = Null \<or> color t = Black)"

definition llrb :: "('k, 'v) node \<Rightarrow> bool" where
  "llrb t = (noRedRight t \<and> noRedLeftLeft t \<and> blackBalanced t \<and> rootBlack t)"

definition put :: "'k::linorder \<Rightarrow> 'v \<Rightarrow> ('k \<times> 'v) list \<Rightarrow> ('k \<times> 'v) list" where
  "put k v es = filter (\<lambda>e. fst e < k) es @ (k, v) # filter (\<lambda>e. k < fst e) es"

definition valid_tree :: "('k::linorder, 'v) RedBlackTree \<Rightarrow> bool" where
  "valid_tree this =
     (llrb (root this) \<and> ordered (root this) \<and> tsize this = int (length (inorder (root this))))"

definition tree_1357 :: "(nat, string) RedBlackTree" where
  "tree_1357 =
     \<lparr>root = Node Black (Node Black Null 1 ''a'' Null) 3 ''b''
        (Node Black (Node Red Null 5 ''c'' Null) 7 ''d'' Null), tsize = 4\<rparr>"

fun update_value :: "'k \<Rightarrow> 'v \<Rightarrow> ('k, 'v) node \<Rightarrow> ('k, 'v) node" where
  "update_value k v Null = Null"
| "update_value k v (Node c l nk nv r) =
     Node c (update_value k v l) nk (if nk = k then v else nv) (update_value k v r)"

definition tree_5 :: "(nat, string) RedBlackTree" where
  "tree_5 = \<lparr>root = Node Black Null 5 ''a'' Null, tsize = 1\<rparr>"

fun node_count :: "('k, 'v) node \<Rightarrow> nat" where
  "node_count Null = 0"
| "node_count (Node c l k v r) = 1 + node_count l + node_count r"

text \<open>
  The loops of a caller that reads \<^verbatim>\<open>min()\<close> (or \<^verbatim>\<open>max()\<close>) and calls \<^verbatim>\<open>deleteMin()\<close> (or
  \<^verbatim>\<open>deleteMax()\<close>) while the tree is not empty; the result is the list of keys read.
\<close>

partial_function (option) drain_min :: "('k, 'v) RedBlackTree \<Rightarrow> 'k list option" where
  "drain_min this =
     (case min_tree this of
        None \<Rightarrow> Some []
      | Some k \<Rightarrow> do {
          (deleted, this) \<leftarrow> deleteMin_tree this;
          ks \<leftarrow> drain_min this;
          Some (k # ks)
        })"

partial_function (option) drain_max :: "('k, 'v) RedBlackTree \<Rightarrow> 'k list option" where
  "drain_max this =
     (case max_tree this of
        None \<Rightarrow> Some []
      | Some k \<Rightarrow> do {
          (deleted, this) \<leftarrow> deleteMax_tree this;
          ks \<leftarrow> drain_max this;
          Some (k # ks)
        })"

section \<open>Auxiliary definitions of the proofs\<close>

fun flip :: "color \<Rightarrow> color" where
  "flip Red = Black"
| "flip Black = Red"

text \<open>What \<open>fixUp\<close> returns on a node, by the colours it tests.\<close>

definition fixUp_result :: "('k, 'v) node \<Rightarrow> ('k, 'v) node" where
  "fixUp_result n =
     (if isRed (left n) \<and> isRed (left (left n)) then
        Node (flip (color n)) (set_color Black (left (left n))) (key (left n)) (val (left n))
          (Node Black (right (left n)) (key n) (val n) (right n))
      else if isRed (left n) \<and> isRed (right n) then
        Node (flip (color n)) (set_color Black (left n)) (key n) (val n) (set_color Black (right n))
      else if isRed (right n) then
        (if isRed (right (right n)) then
           Node (flip (color n)) (Node Black (left n) (key n) (val n) (left (right n)))
             (key (right n)) (val (right n)) (set_color Black (right (right n)))
         else
           Node (color n) (Node Red (left n) (key n) (val n) (left (right n)))
             (key (right n)) (val (right n)) (right (right n)))
      else n)"

text \<open>
  The same invariants in the form the proofs use: the black height \<open>bh\<close> of a subtree with
  \<open>invh\<close>, and \<open>invc\<close>, which also holds of a red subtree (then both children are black).
  \<open>almost\<close> leaves the root's own colour and its left child's colour open.
\<close>

fun bh :: "('k, 'v) node \<Rightarrow> nat" where
  "bh Null = 0"
| "bh (Node c l k v r) = (if c = Black then bh l + 1 else bh l)"

fun invh :: "('k, 'v) node \<Rightarrow> bool" where
  "invh Null = True"
| "invh (Node c l k v r) = (invh l \<and> invh r \<and> bh l = bh r)"

fun invc :: "('k, 'v) node \<Rightarrow> bool" where
  "invc Null = True"
| "invc (Node c l k v r) = (invc l \<and> invc r \<and> \<not> isRed r \<and> (c = Red \<longrightarrow> \<not> isRed l))"

fun almost :: "('k, 'v) node \<Rightarrow> bool" where
  "almost Null = True"
| "almost (Node c l k v r) = (invc l \<and> invc r \<and> \<not> isRed r)"

definition lookup :: "('k::linorder, 'v) node \<Rightarrow> 'k \<Rightarrow> 'v option" where
  "lookup t k = (let node = get_node t k in if node = Null then None else Some (val node))"

definition links :: "('k, 'v) node \<Rightarrow> nat" where
  "links t = (case t of Null \<Rightarrow> 0 | Node c l k v r \<Rightarrow> bh l + 1)"

fun remaining :: "('k, 'v) entries_iterator \<Rightarrow> ('k \<times> 'v) list" where
  "remaining (node, stack) =
     inorder node @ concat (map (\<lambda>n. (key n, val n) # inorder (right n)) stack)"

text \<open>
  The private delete methods are entered at a node that is red, or black with exactly one
  red child (\<open>delpre\<close>); they return a subtree of the same black height that satisfies
  \<open>invc\<close> and is black when the node was black (\<open>post\<close>).
\<close>

fun delpre :: "('k, 'v) node \<Rightarrow> bool" where
  "delpre Null = False"
| "delpre (Node c l k v r) =
     (invc l \<and> invc r \<and> invh l \<and> invh r \<and> bh l = bh r \<and>
      (if c = Red then \<not> isRed l \<and> \<not> isRed r else isRed l \<noteq> isRed r))"

definition post :: "('k, 'v) node \<Rightarrow> ('k, 'v) node \<Rightarrow> bool" where
  "post h t = (invc t \<and> invh t \<and> bh t = bh h \<and> (\<not> isRed h \<longrightarrow> \<not> isRed t))"

section \<open>What a tree holds\<close>

lemma node_keys_simps [simp]:
  "node_keys Null = []"
  "node_keys (Node c l k v r) = node_keys l @ k # node_keys r"
  by (simp_all add: node_keys_def)

lemma ordered_simps [simp]:
  "ordered Null"
  "ordered (Node c l k v r) =
     (ordered l \<and> ordered r \<and> (\<forall>x \<in> set (node_keys l). x < k) \<and> (\<forall>y \<in> set (node_keys r). k < y))"
  by (auto simp: ordered_def sorted_wrt_append intro: less_trans)

lemma inorder_set_color [simp]: "inorder (set_color c t) = inorder t"
  by (cases t) simp_all

lemma inorder_flipColor [simp]: "inorder (flipColor t) = inorder t"
  by (cases t) simp_all

lemma node_keys_set_color [simp]: "node_keys (set_color c t) = node_keys t"
  by (simp add: node_keys_def)

lemma node_keys_flipColor [simp]: "node_keys (flipColor t) = node_keys t"
  by (simp add: node_keys_def)

lemma ordered_set_color [simp]: "ordered (set_color c t) = ordered t"
  by (simp add: ordered_def)

lemma ordered_flipColor [simp]: "ordered (flipColor t) = ordered t"
  by (simp add: ordered_def)

section \<open>Explicit results of the balancing steps\<close>

lemma color_neq_Red [simp]: "(c \<noteq> Red) = (c = Black)"
  by (cases c) simp_all

lemma color_neq_Black [simp]: "(c \<noteq> Black) = (c = Red)"
  by (cases c) simp_all

lemma isRed_cases: "isRed t \<Longrightarrow> (\<And>l k v r. t = Node Red l k v r \<Longrightarrow> P) \<Longrightarrow> P"
  by (cases t) auto

lemma fixUp_Node: "fixUp (Node c l k v r) = Some (fixUp_result (Node c l k v r))"
proof -
  consider (LL) "isRed l" "isRed (left l)"
    | (LR) "isRed l" "\<not> isRed (left l)" "isRed r"
    | (R) "\<not> isRed l" "isRed r"
    | (L) "isRed l" "\<not> isRed (left l)" "\<not> isRed r"
    | (N) "\<not> isRed l" "\<not> isRed r"
    by blast
  then show ?thesis
  proof cases
    case LL
    then show ?thesis
      by (cases c) (auto elim!: isRed_cases simp: fixUp.simps fixUp_result_def)
  next
    case LR
    then show ?thesis
      by (cases c) (auto elim!: isRed_cases simp: fixUp.simps fixUp_result_def)
  next
    case R
    then show ?thesis
      by (cases c; cases "isRed (right r)")
        (auto elim!: isRed_cases simp: fixUp.simps fixUp_result_def)
  next
    case L
    then show ?thesis
      by (cases c) (auto elim!: isRed_cases simp: fixUp.simps fixUp_result_def)
  next
    case N
    then show ?thesis
      by (auto simp: fixUp.simps fixUp_result_def)
  qed
qed

lemma moveRedLeft_Node:
  "moveRedLeft (Node c l k v r) =
    (if l = Null \<or> r = Null then None
     else if isRed (left r) then
       Some (Node c (Node Black (flipColor l) k v (left (left r))) (key (left r)) (val (left r))
               (Node Black (right (left r)) (key r) (val r) (right r)))
     else Some (Node (flip c) (flipColor l) k v (flipColor r)))"
  by (cases r; cases "left r"; cases c) (auto simp: moveRedLeft.simps Let_def)

lemma moveRedRight_Node:
  "moveRedRight (Node c l k v r) =
    (if l = Null \<or> r = Null then None
     else if isRed (left l) then
       Some (Node c (flipColor (left l)) (key l) (val l)
               (Node Black (right l) k v (flipColor r)))
     else Some (Node (flip c) (flipColor l) k v (flipColor r)))"
  by (cases l; cases "left l"; cases c) (auto simp: moveRedRight.simps Let_def)

section \<open>Rotation to the left\<close>

text \<open>
  Claim C8. \<^verbatim>\<open>rotateLeft(node)\<close> fails its assertion when \<^verbatim>\<open>node.right\<close> is absent. When the
  right child is present, the result is the old right child (its key, value and right
  subtree) with the colour of the old root; its left child is the old root, now red, whose
  right subtree is the former left subtree of the old right child; the in-order sequence of
  the subtree is the same as before.
\<close>

theorem rotateLeft_spec:
  "rotateLeft (Node c l k v Null) = None \<and>
   rotateLeft (Node c l k v (Node rc rl rk rv rr)) = Some (Node c (Node Red l k v rl) rk rv rr) \<and>
   inorder (Node c (Node Red l k v rl) rk rv rr) = inorder (Node c l k v (Node rc rl rk rv rr))"
  by simp

section \<open>The invariants of a left-leaning red-black tree\<close>

lemma invc_set_color_Black: "almost t \<Longrightarrow> invc (set_color Black t)"
  by (cases t) auto

lemma invc_almost: "invc t \<Longrightarrow> almost t"
  by (cases t) auto

lemma invh_set_color [simp]: "invh (set_color c t) = invh t"
  by (cases t) auto

lemma bh_set_color_Black: "isRed t \<Longrightarrow> bh (set_color Black t) = bh t + 1"
  by (cases t) auto

lemma isRed_set_color [simp]: "isRed (set_color c t) = (t \<noteq> Null \<and> c = Red)"
  by (cases t) auto

lemma fixUp_result_black:
  assumes "invc l" "invc r" "invh l" "invh r" "bh l = bh r"
  shows "invc (fixUp_result (Node Black l k v r)) \<and> invh (fixUp_result (Node Black l k v r)) \<and>
         bh (fixUp_result (Node Black l k v r)) = bh l + 1 \<and>
         (\<not> (isRed l \<and> isRed r) \<longrightarrow> \<not> isRed (fixUp_result (Node Black l k v r)))"
  using assms
  by (auto simp: fixUp_result_def elim!: isRed_cases)

lemma almost_invc: "almost t \<Longrightarrow> \<not> (isRed t \<and> isRed (left t)) \<Longrightarrow> invc t"
  by (cases t) auto

lemma fixUp_result_black_almost:
  assumes "almost l" "invc r" "\<not> isRed r" "invh l" "invh r" "bh l = bh r"
  shows "invc (fixUp_result (Node Black l k v r)) \<and> invh (fixUp_result (Node Black l k v r)) \<and>
         bh (fixUp_result (Node Black l k v r)) = bh l + 1"
  using assms
  by (auto simp: fixUp_result_def almost_invc elim!: isRed_cases)

lemma fixUp_result_red:
  assumes "invc l" "invc r" "\<not> (isRed l \<and> isRed r)" "invh l" "invh r" "bh l = bh r"
  shows "almost (fixUp_result (Node Red l k v r)) \<and> invh (fixUp_result (Node Red l k v r)) \<and>
         bh (fixUp_result (Node Red l k v r)) = bh l \<and> isRed (fixUp_result (Node Red l k v r))"
  using assms
  by (auto simp: fixUp_result_def elim!: isRed_cases)

lemma fixUp_result_id:
  "\<not> isRed r \<Longrightarrow> \<not> (isRed l \<and> isRed (left l)) \<Longrightarrow> fixUp_result (Node c l k v r) = Node c l k v r"
  by (auto simp: fixUp_result_def)

lemma inorder_fixUp_result [simp]: "inorder (fixUp_result (Node c l k v r)) = inorder (Node c l k v r)"
  by (auto simp: fixUp_result_def elim!: isRed_cases)

lemma fixUp_result_not_Null [simp]: "fixUp_result (Node c l k v r) \<noteq> Null"
  by (auto simp: fixUp_result_def)

lemma set_node_Node:
  "set_node (Node c l nk nv r) k v sz =
     (if k = nk then Some (fixUp_result (Node c l nk v r), sz)
      else if k < nk then
        (case set_node l k v sz of None \<Rightarrow> None
         | Some (l', sz') \<Rightarrow> Some (fixUp_result (Node c l' nk nv r), sz'))
      else
        (case set_node r k v sz of None \<Rightarrow> None
         | Some (r', sz') \<Rightarrow> Some (fixUp_result (Node c l nk nv r'), sz')))"
  by (auto simp: equality_def lessThan_key_def fixUp_Node split: option.splits)

declare set_node.simps(2) [simp del]

lemma set_node_total: "\<exists>t' sz'. set_node t k v sz = Some (t', sz') \<and> t' \<noteq> Null"
proof (induction t)
  case Null
  show ?case by (simp add: new_Node_def)
next
  case (Node c l nk nv r)
  then show ?case
    by (auto simp: set_node_Node split: option.splits)
qed

lemma set_node_NodeE:
  assumes "set_node (Node c l nk nv r) k v sz = Some (t', sz')"
  obtains (eq) "k = nk" "t' = fixUp_result (Node c l nk v r)" "sz' = sz"
    | (lt) l' where "k < nk" "set_node l k v sz = Some (l', sz')"
        "t' = fixUp_result (Node c l' nk nv r)"
    | (gt) r' where "nk < k" "set_node r k v sz = Some (r', sz')"
        "t' = fixUp_result (Node c l nk nv r')"
proof -
  consider "k = nk" | "k < nk" "k \<noteq> nk" | "nk < k" "k \<noteq> nk" "\<not> k < nk"
    by (metis less_linear less_asym less_irrefl)
  then show thesis
  proof cases
    case 1
    with assms eq show ?thesis by (simp add: set_node_Node)
  next
    case 2
    with assms lt show ?thesis by (auto simp: set_node_Node split: option.splits)
  next
    case 3
    with assms gt show ?thesis by (auto simp: set_node_Node split: option.splits)
  qed
qed

lemma set_node_inv:
  "invc t \<Longrightarrow> invh t \<Longrightarrow> set_node t k v sz = Some (t', sz') \<Longrightarrow>
   invh t' \<and> bh t' = bh t \<and> almost t' \<and> (\<not> isRed t \<longrightarrow> invc t')"
proof (induction t arbitrary: t' sz')
  case Null
  then show ?case by (auto simp: new_Node_def)
next
  case (Node c l nk nv r)
  from Node.prems have inv: "invc l" "invc r" "invh l" "invh r" "bh l = bh r" "\<not> isRed r"
    and red: "c = Red \<Longrightarrow> \<not> isRed l"
    by simp_all
  from Node.prems(3) show ?case
  proof (cases rule: set_node_NodeE)
    case eq
    show ?thesis
    proof (cases c)
      case Black
      with eq fixUp_result_black [OF inv(1-5), of nk v] show ?thesis
        by (simp add: invc_almost)
    next
      case Red
      with eq red inv fixUp_result_red [of l r nk v] show ?thesis
        by simp
    qed
  next
    case (lt l')
    from Node.IH(1) [OF inv(1) inv(3) lt(2)]
    have l': "invh l'" "bh l' = bh l" "almost l'" "\<not> isRed l \<Longrightarrow> invc l'"
      by simp_all
    show ?thesis
    proof (cases c)
      case Black
      with lt l' inv fixUp_result_black_almost [of l' r nk nv] show ?thesis
        by (simp add: invc_almost)
    next
      case Red
      with lt l' inv red fixUp_result_red [of l' r nk nv] show ?thesis
        by simp
    qed
  next
    case (gt r')
    from Node.IH(2) [OF inv(2) inv(4) gt(2)] inv(6)
    have r': "invh r'" "bh r' = bh r" "invc r'"
      by simp_all
    show ?thesis
    proof (cases c)
      case Black
      with gt r' inv fixUp_result_black [of l r' nk nv] show ?thesis
        by (simp add: invc_almost)
    next
      case Red
      with gt r' inv red fixUp_result_red [of l r' nk nv] show ?thesis
        by simp
    qed
  qed
qed

lemma filter_fst_less:
  "\<forall>x\<in>set (map fst es). x < (k::'k::linorder) \<Longrightarrow> filter (\<lambda>e. fst e < k) es = es"
  "\<forall>x\<in>set (map fst es). k \<le> x \<Longrightarrow> filter (\<lambda>e. fst e < k) es = []"
  by (induction es) auto

lemma filter_fst_greater:
  "\<forall>x\<in>set (map fst es). (k::'k::linorder) < x \<Longrightarrow> filter (\<lambda>e. k < fst e) es = es"
  "\<forall>x\<in>set (map fst es). x \<le> k \<Longrightarrow> filter (\<lambda>e. k < fst e) es = []"
  by (induction es) auto

lemma filter_lt_all: "\<forall>x\<in>set (node_keys (t::('k::linorder, 'v) node)). x < k \<Longrightarrow> filter (\<lambda>e. fst e < k) (inorder t) = inorder t"
  unfolding node_keys_def by (rule filter_fst_less)

lemma filter_lt_none: "\<forall>x\<in>set (node_keys (t::('k::linorder, 'v) node)). k \<le> x \<Longrightarrow> filter (\<lambda>e. fst e < k) (inorder t) = []"
  unfolding node_keys_def by (rule filter_fst_less)

lemma filter_gt_all: "\<forall>x\<in>set (node_keys (t::('k::linorder, 'v) node)). k < x \<Longrightarrow> filter (\<lambda>e. k < fst e) (inorder t) = inorder t"
  unfolding node_keys_def by (rule filter_fst_greater)

lemma filter_gt_none: "\<forall>x\<in>set (node_keys (t::('k::linorder, 'v) node)). x \<le> k \<Longrightarrow> filter (\<lambda>e. k < fst e) (inorder t) = []"
  unfolding node_keys_def by (rule filter_fst_greater)

lemma put_Node:
  fixes k :: "'k::linorder"
  shows "k = nk \<Longrightarrow> \<forall>x\<in>set (map fst xs). x < nk \<Longrightarrow> \<forall>x\<in>set (map fst ys). nk < x \<Longrightarrow>
         put k v (xs @ (nk, nv) # ys) = xs @ (k, v) # ys"
    and "k < nk \<Longrightarrow> \<forall>x\<in>set (map fst ys). nk < x \<Longrightarrow>
         put k v (xs @ (nk, nv) # ys) = put k v xs @ (nk, nv) # ys"
    and "nk < k \<Longrightarrow> \<forall>x\<in>set (map fst xs). x < nk \<Longrightarrow>
         put k v (xs @ (nk, nv) # ys) = xs @ (nk, nv) # put k v ys"
proof -
  assume "k = nk" "\<forall>x\<in>set (map fst xs). x < nk" "\<forall>x\<in>set (map fst ys). nk < x"
  then have "\<forall>x\<in>set (map fst xs). x < k" "\<forall>x\<in>set (map fst xs). x \<le> k"
    "\<forall>x\<in>set (map fst ys). k < x" "\<forall>x\<in>set (map fst ys). k \<le> x"
    by auto
  then show "put k v (xs @ (nk, nv) # ys) = xs @ (k, v) # ys"
    using \<open>k = nk\<close> by (simp add: put_def filter_fst_less filter_fst_greater)
next
  assume "k < nk" "\<forall>x\<in>set (map fst ys). nk < x"
  then have "\<forall>x\<in>set (map fst ys). k < x" "\<forall>x\<in>set (map fst ys). k \<le> x"
    by auto
  then show "put k v (xs @ (nk, nv) # ys) = put k v xs @ (nk, nv) # ys"
    using \<open>k < nk\<close> by (simp add: put_def filter_fst_less filter_fst_greater)
next
  assume "nk < k" "\<forall>x\<in>set (map fst xs). x < nk"
  then have "\<forall>x\<in>set (map fst xs). x < k" "\<forall>x\<in>set (map fst xs). x \<le> k"
    by auto
  then show "put k v (xs @ (nk, nv) # ys) = xs @ (nk, nv) # put k v ys"
    using \<open>nk < k\<close> by (simp add: put_def filter_fst_less filter_fst_greater)
qed

lemma set_node_inorder:
  "ordered t \<Longrightarrow> set_node t k v sz = Some (t', sz') \<Longrightarrow>
   inorder t' = put k v (inorder t) \<and> sz' = sz + (if k \<in> set (node_keys t) then 0 else 1)"
proof (induction t arbitrary: t' sz')
  case Null
  then show ?case by (auto simp: new_Node_def put_def)
next
  case (Node c l nk nv r)
  from Node.prems(1) have ord: "ordered l" "ordered r"
    and lb: "\<forall>x\<in>set (map fst (inorder l)). x < nk" and rb: "\<forall>x\<in>set (map fst (inorder r)). nk < x"
    by (simp_all add: node_keys_def)
  consider (eq) "k = nk" | (lt) "k < nk" | (gt) "nk < k"
    by (metis less_linear)
  then show ?case
  proof cases
    case eq
    with Node.prems(2) have "t' = fixUp_result (Node c l nk v r)" "sz' = sz"
      by (simp_all add: set_node_Node)
    with eq lb rb show ?thesis
      by (simp add: put_Node(1))
  next
    case lt
    then have "k \<noteq> nk" by simp
    with lt Node.prems obtain l' where l': "set_node l k v sz = Some (l', sz')"
      and t': "t' = fixUp_result (Node c l' nk nv r)"
      by (auto simp: set_node_Node split: option.splits)
    from lt rb have b: "k \<notin> set (node_keys r)"
      by (auto simp: node_keys_def)
    from Node.IH(1) [OF ord(1) l'] lt t' b rb \<open>k \<noteq> nk\<close> show ?thesis
      by (simp add: put_Node(2))
  next
    case gt
    then have "k \<noteq> nk" "\<not> k < nk" by simp_all
    with gt Node.prems obtain r' where r': "set_node r k v sz = Some (r', sz')"
      and t': "t' = fixUp_result (Node c l nk nv r')"
      by (auto simp: set_node_Node split: option.splits)
    from gt lb have b: "k \<notin> set (node_keys l)"
      by (auto simp: node_keys_def)
    from Node.IH(2) [OF ord(2) r'] gt t' b lb \<open>k \<noteq> nk\<close> show ?thesis
      by (simp add: put_Node(3))
  qed
qed

section \<open>Lookup and insertion\<close>

lemma lookup_simps [simp]:
  "lookup Null k = None"
  "lookup (Node c l nk nv r) k =
     (if k = nk then Some nv else if k < nk then lookup l k else lookup r k)"
  by (simp_all add: lookup_def equality_def lessThan_key_def)

lemma get_tree_lookup: "get_tree this k = lookup (root this) k"
  by (simp add: get_tree_def lookup_def)

lemma map_of_inorder_None:
  "k \<notin> set (node_keys t) \<Longrightarrow> map_of (inorder t) k = None"
  by (simp add: node_keys_def map_of_eq_None_iff)

lemma lookup_map_of: "ordered t \<Longrightarrow> lookup t k = map_of (inorder t) k"
proof (induction t)
  case Null
  show ?case by simp
next
  case (Node c l nk nv r)
  then have IH: "lookup l k = map_of (inorder l) k" "lookup r k = map_of (inorder r) k"
    and lb: "\<forall>x\<in>set (node_keys l). x < nk" and rb: "\<forall>x\<in>set (node_keys r). nk < x"
    by simp_all
  consider (eq) "k = nk" | (lt) "k < nk" | (gt) "nk < k"
    by (metis less_linear)
  then show ?case
  proof cases
    case eq
    with lb have "k \<notin> set (node_keys l)" by auto
    with eq show ?thesis
      by (simp add: map_add_def map_of_inorder_None)
  next
    case lt
    with rb have "k \<notin> set (node_keys r)" by auto
    moreover from lt have "k \<noteq> nk" by simp
    ultimately show ?thesis
      using lt IH by (simp add: map_add_def map_of_inorder_None split: option.split)
  next
    case gt
    with lb have "k \<notin> set (node_keys l)" by auto
    moreover from gt have "k \<noteq> nk" "\<not> k < nk" by simp_all
    ultimately show ?thesis
      using IH by (simp add: map_add_def map_of_inorder_None)
  qed
qed

lemma map_of_filter_fst:
  "map_of (filter (\<lambda>e. P (fst e)) es) k = (if P k then map_of es k else None)"
  by (induction es) auto

lemma map_of_put: "map_of (put k v es) = (map_of es)(k \<mapsto> v)"
proof
  fix x
  show "map_of (put k v es) x = ((map_of es)(k \<mapsto> v)) x"
    by (cases "x < k"; cases "k < x")
      (auto simp: put_def map_add_def map_of_filter_fst [of "\<lambda>a. a < k"]
        map_of_filter_fst [of "\<lambda>a. k < a"] split: option.split)
qed

lemma keys_put: "set (map fst (put k v es)) = insert k (set (map fst es))"
proof -
  have "fst ` set es = fst ` {e \<in> set es. fst e < k} \<union> fst ` {e \<in> set es. k < fst e} \<union>
        (fst ` set es \<inter> {k})"
    by (auto simp: image_iff)
  then show ?thesis
    by (auto simp: put_def)
qed

lemma sorted_put:
  "sorted_wrt (<) (map fst es) \<Longrightarrow> sorted_wrt (<) (map fst (put k v es))"
  by (auto simp: put_def sorted_wrt_append sorted_wrt_map sorted_wrt_filter)

lemma length_put:
  "sorted_wrt (<) (map fst es) \<Longrightarrow>
   length (put k v es) = (if k \<in> set (map fst es) then length es else length es + 1)"
proof (induction es)
  case Nil
  show ?case by (simp add: put_def)
next
  case (Cons e es)
  then show ?case
    by (cases "fst e < k"; cases "k < fst e") (auto simp: put_def filter_fst_less filter_fst_greater)
qed

lemma invc_red_left: "invc t \<Longrightarrow> isRed t \<Longrightarrow> \<not> isRed (left t)"
  by (cases t) auto

lemma invc_imp: "invc t \<Longrightarrow> noRedRight t \<and> noRedLeftLeft t"
  by (induction t) (auto dest: invc_red_left)

lemma imp_invc:
  "noRedRight t \<Longrightarrow> noRedLeftLeft t \<Longrightarrow> \<not> (isRed t \<and> isRed (left t)) \<Longrightarrow> invc t"
  by (induction t) auto

lemma invc_iff:
  "invc t \<longleftrightarrow> noRedRight t \<and> noRedLeftLeft t \<and> \<not> (isRed t \<and> isRed (left t))"
  using invc_imp [of t] imp_invc [of t] invc_red_left [of t] by blast

lemma links_plus: "links t + (if isRed t then 0 else 1) = bh t + 1"
  by (cases t) (auto simp: links_def)

lemma blackLinks_not_Nil [simp]: "blackLinks t \<noteq> []"
  by (induction t) auto

lemma invh_blackLinks: "invh t \<Longrightarrow> set (blackLinks t) = {links t}"
proof (induction t)
  case Null
  show ?case by (simp add: links_def)
next
  case (Node c l k v r)
  then have "set (blackLinks l) = {links l}" "set (blackLinks r) = {links r}" "bh l = bh r"
    by simp_all
  then show ?case
    using links_plus [of l] links_plus [of r]
    by (simp add: links_def)
qed

lemma blackLinks_invh:
  "\<forall>a\<in>set (blackLinks t). \<forall>b\<in>set (blackLinks t). a = b \<Longrightarrow> invh t"
proof (induction t)
  case Null
  show ?case by simp
next
  case (Node c l k v r)
  let ?wl = "if isRed l then 0 else (1::nat)" and ?wr = "if isRed r then 0 else (1::nat)"
  have l: "\<forall>a\<in>set (blackLinks l). \<forall>b\<in>set (blackLinks l). a = b"
  proof (intro ballI)
    fix a b
    assume "a \<in> set (blackLinks l)" "b \<in> set (blackLinks l)"
    then have "a + ?wl \<in> set (blackLinks (Node c l k v r))" "b + ?wl \<in> set (blackLinks (Node c l k v r))"
      by simp_all
    with Node.prems have "a + ?wl = b + ?wl" by blast
    then show "a = b" by simp
  qed
  have r: "\<forall>a\<in>set (blackLinks r). \<forall>b\<in>set (blackLinks r). a = b"
  proof (intro ballI)
    fix a b
    assume "a \<in> set (blackLinks r)" "b \<in> set (blackLinks r)"
    then have "a + ?wr \<in> set (blackLinks (Node c l k v r))" "b + ?wr \<in> set (blackLinks (Node c l k v r))"
      by simp_all
    with Node.prems have "a + ?wr = b + ?wr" by blast
    then show "a = b" by simp
  qed
  have lr: "\<forall>a\<in>set (blackLinks l). \<forall>b\<in>set (blackLinks r). a + ?wl = b + ?wr"
  proof (intro ballI)
    fix a b
    assume "a \<in> set (blackLinks l)" "b \<in> set (blackLinks r)"
    then have "a + ?wl \<in> set (blackLinks (Node c l k v r))" "b + ?wr \<in> set (blackLinks (Node c l k v r))"
      by simp_all
    with Node.prems show "a + ?wl = b + ?wr" by blast
  qed
  from l r Node.IH have h: "invh l" "invh r" by blast+
  then have "set (blackLinks l) = {links l}" "set (blackLinks r) = {links r}"
    by (simp_all add: invh_blackLinks)
  with lr have "links l + ?wl = links r + ?wr" by blast
  with links_plus [of l] links_plus [of r] have "bh l = bh r" by simp
  with h show ?case by simp
qed

lemma blackBalanced_iff: "blackBalanced t \<longleftrightarrow> invh t"
proof
  assume "blackBalanced t"
  then have "\<forall>a\<in>set (blackLinks t). a = hd (blackLinks t)"
    by (simp add: blackBalanced_def list_all_iff)
  then have "\<forall>a\<in>set (blackLinks t). \<forall>b\<in>set (blackLinks t). a = b"
    by metis
  then show "invh t" by (rule blackLinks_invh)
next
  assume "invh t"
  then have "set (blackLinks t) = {links t}" by (rule invh_blackLinks)
  moreover have "hd (blackLinks t) \<in> set (blackLinks t)" by simp
  ultimately show "blackBalanced t"
    by (simp add: blackBalanced_def list_all_iff)
qed

lemma llrb_iff: "llrb t \<longleftrightarrow> invc t \<and> invh t \<and> \<not> isRed t"
  by (cases t) (auto simp: llrb_def invc_iff blackBalanced_iff rootBlack_def)

lemma valid_tree_empty: "valid_tree empty_tree"
  by (simp add: valid_tree_def empty_tree_def llrb_def blackBalanced_def rootBlack_def)

lemma ordered_inorder_eq: "inorder t' = put k v (inorder t) \<Longrightarrow> ordered t \<Longrightarrow> ordered t'"
  by (simp add: ordered_def node_keys_def sorted_put)

lemma set_tree_valid:
  assumes "valid_tree this"
  shows "\<exists>this'. set_tree this k v = Some this' \<and> valid_tree this' \<and>
           inorder (root this') = put k v (inorder (root this)) \<and>
           tsize this' = tsize this + (if k \<in> set (node_keys (root this)) then 0 else 1)"
proof -
  from assms have inv: "invc (root this)" "invh (root this)" "\<not> isRed (root this)"
    and ord: "ordered (root this)" and sz: "tsize this = int (length (inorder (root this)))"
    by (simp_all add: valid_tree_def llrb_iff)
  obtain t' sz' where s: "set_node (root this) k v (tsize this) = Some (t', sz')" and "t' \<noteq> Null"
    using set_node_total [of "root this" k v "tsize this"] by blast
  from set_node_inv [OF inv(1,2) s] inv(3) have t': "invh t'" "invc t'"
    by simp_all
  from set_node_inorder [OF ord s]
  have io: "inorder t' = put k v (inorder (root this))"
    and sz': "sz' = tsize this + (if k \<in> set (node_keys (root this)) then 0 else 1)"
    by simp_all
  let ?this' = "\<lparr>root = set_color Black t', tsize = sz'\<rparr>"
  have 1: "set_tree this k v = Some ?this'"
    using s by (simp add: set_tree_def)
  have 2: "llrb (root ?this')"
    using t' \<open>t' \<noteq> Null\<close> by (simp add: llrb_iff invc_set_color_Black invc_almost)
  have 3: "ordered (root ?this')"
    using io ord by (simp add: ordered_inorder_eq)
  have 4: "tsize ?this' = int (length (inorder (root ?this')))"
    using io sz' sz ord length_put [of "inorder (root this)" k v]
    by (simp add: ordered_def node_keys_def)
  from 1 2 3 4 io sz' show ?thesis
    by (auto simp: valid_tree_def)
qed

lemma get_tree_map_of: "valid_tree this \<Longrightarrow> get_tree this k = map_of (inorder (root this)) k"
  by (simp add: get_tree_lookup lookup_map_of valid_tree_def)

lemma set_entries_valid:
  "valid_tree this \<Longrightarrow>
   \<exists>this'. set_entries this es = Some this' \<and> valid_tree this' \<and>
     map_of (inorder (root this')) = map_of (inorder (root this)) ++ map_of (rev es)"
proof (induction es arbitrary: this)
  case Nil
  then show ?case by simp
next
  case (Cons e es)
  from set_tree_valid [OF Cons.prems, of "fst e" "snd e"] obtain this1 where
    1: "set_tree this (fst e) (snd e) = Some this1" "valid_tree this1"
    "inorder (root this1) = put (fst e) (snd e) (inorder (root this))"
    by blast
  from Cons.IH [OF 1(2)] obtain this' where
    2: "set_entries this1 es = Some this'" "valid_tree this'"
    "map_of (inorder (root this')) = map_of (inorder (root this1)) ++ map_of (rev es)"
    by blast
  have "map_of (inorder (root this1)) = map_of (inorder (root this)) ++ map_of [e]"
    using 1(3) by (cases e) (simp add: map_of_put)
  with 1 2 show ?case
    by simp
qed

text \<open>
  Claim C3. After any finite sequence of \<^verbatim>\<open>set\<close> calls on the empty tree (the constructor
  applied to the sequence), \<^verbatim>\<open>get(k)\<close> is the value of the last \<^verbatim>\<open>set(k, v)\<close> of the sequence
  and absent for a key never set (\<open>map_of\<close> on the reversed sequence). A further
  \<^verbatim>\<open>set(k, v)\<close> returns, makes \<^verbatim>\<open>get(k)\<close> yield \<open>v\<close>, leaves every other key as it was, and
  leaves the size unchanged when \<open>k\<close> was present and increases it by one otherwise.
\<close>

theorem set_then_get:
  "\<exists>this. new_RedBlackTree es = Some this \<and>
     (\<forall>k. get_tree this k = map_of (rev es) k) \<and>
     (\<forall>k v. \<exists>this'. set_tree this k v = Some this' \<and>
        (\<forall>k'. get_tree this' k' = (if k' = k then Some v else get_tree this k')) \<and>
        tsize this' = (if get_tree this k = None then tsize this + 1 else tsize this))"
proof -
  from set_entries_valid [OF valid_tree_empty, of es] obtain this where
    th: "new_RedBlackTree es = Some this" "valid_tree this"
    "map_of (inorder (root this)) = map_of (rev es)"
    by (auto simp: new_RedBlackTree_def empty_tree_def)
  have "\<exists>this'. set_tree this k v = Some this' \<and>
        (\<forall>k'. get_tree this' k' = (if k' = k then Some v else get_tree this k')) \<and>
        tsize this' = (if get_tree this k = None then tsize this + 1 else tsize this)" for k v
  proof -
    from set_tree_valid [OF th(2), of k v] obtain this' where
      s: "set_tree this k v = Some this'" "valid_tree this'"
      "inorder (root this') = put k v (inorder (root this))"
      "tsize this' = tsize this + (if k \<in> set (node_keys (root this)) then 0 else 1)"
      by blast
    have "(get_tree this k = None) = (k \<notin> set (node_keys (root this)))"
      using th(2) by (simp add: get_tree_map_of map_of_eq_None_iff node_keys_def)
    with s th(2) show ?thesis
      by (simp add: get_tree_map_of map_of_put)
  qed
  with th show ?thesis
    by (auto simp: get_tree_map_of)
qed

theorem set_then_get_witness:
  "\<exists>this. new_RedBlackTree [(1::nat, 10::nat), (2, 20), (1, 30)] = Some this \<and>
     get_tree this 1 = Some 30 \<and> get_tree this 2 = Some 20 \<and> get_tree this 3 = None \<and>
     tsize this = 2"
proof -
  from set_then_get [of "[(1::nat, 10::nat), (2, 20), (1, 30)]"] obtain this where
    "new_RedBlackTree [(1::nat, 10::nat), (2, 20), (1, 30)] = Some this"
    "\<forall>k. get_tree this k = map_of (rev [(1::nat, 10::nat), (2, 20), (1, 30)]) k"
    by blast
  moreover have "new_RedBlackTree [(1::nat, 10::nat), (2, 20), (1, 30)] =
    Some \<lparr>root = Node Black (Node Red Null 1 30 Null) 2 20 Null, tsize = 2\<rparr>"
    by (simp add: new_RedBlackTree_def empty_tree_def set_tree_def set_node_Node new_Node_def
        fixUp_result_def)
  ultimately show ?thesis by auto
qed

section \<open>Predecessor and successor\<close>

lemma previous_node_Node:
  "previous_node (Node c l nk nv r) k =
     (if k \<le> nk then previous_node l k
      else if previous_node r k \<noteq> Null then previous_node r k else Node c l nk nv r)"
  by (simp add: lessThanOrEqual_def Let_def)

lemma next_node_Node:
  "next_node (Node c l nk nv r) k =
     (if nk \<le> k then next_node r k
      else if next_node l k \<noteq> Null then next_node l k else Node c l nk nv r)"
  by (simp add: greaterThanOrEqual_def Let_def)

declare previous_node.simps(2) [simp del] next_node.simps(2) [simp del]

lemma previous_node_spec:
  assumes "ordered t"
  shows "(previous_node t k = Null \<longrightarrow> (\<forall>x\<in>set (node_keys t). k \<le> x)) \<and>
         (previous_node t k \<noteq> Null \<longrightarrow>
            key (previous_node t k) \<in> set (node_keys t) \<and> key (previous_node t k) < k \<and>
            (\<forall>x\<in>set (node_keys t). x < k \<longrightarrow> x \<le> key (previous_node t k)))"
  using assms
proof (induction t)
  case Null
  show ?case by simp
next
  case (Node c l nk nv r)
  then have IHl: "(previous_node l k = Null \<longrightarrow> (\<forall>x\<in>set (node_keys l). k \<le> x)) \<and>
         (previous_node l k \<noteq> Null \<longrightarrow>
            key (previous_node l k) \<in> set (node_keys l) \<and> key (previous_node l k) < k \<and>
            (\<forall>x\<in>set (node_keys l). x < k \<longrightarrow> x \<le> key (previous_node l k)))"
    and IHr: "(previous_node r k = Null \<longrightarrow> (\<forall>x\<in>set (node_keys r). k \<le> x)) \<and>
         (previous_node r k \<noteq> Null \<longrightarrow>
            key (previous_node r k) \<in> set (node_keys r) \<and> key (previous_node r k) < k \<and>
            (\<forall>x\<in>set (node_keys r). x < k \<longrightarrow> x \<le> key (previous_node r k)))"
    and lb: "\<forall>x\<in>set (node_keys l). x < nk" and rb: "\<forall>x\<in>set (node_keys r). nk < x"
    by simp_all
  show ?case
  proof (cases "k \<le> nk")
    case True
    with rb have "\<forall>x\<in>set (node_keys r). k \<le> x" "\<forall>x\<in>set (node_keys r). \<not> x < k"
      by auto
    with True IHl show ?thesis
      by (auto simp: previous_node_Node)
  next
    case False
    then have nk: "nk < k" by simp
    show ?thesis
    proof (cases "previous_node r k = Null")
      case True
      with IHr have "\<forall>x\<in>set (node_keys r). k \<le> x" by blast
      then have "\<forall>x\<in>set (node_keys r). \<not> x < k" by auto
      with True False nk lb show ?thesis
        by (auto simp: previous_node_Node intro: less_imp_le)
    next
      case nn: False
      with IHr have p: "key (previous_node r k) \<in> set (node_keys r)" "key (previous_node r k) < k"
        "\<forall>x\<in>set (node_keys r). x < k \<longrightarrow> x \<le> key (previous_node r k)"
        by blast+
      from p(1) rb have "nk < key (previous_node r k)" by blast
      with lb have "nk \<le> key (previous_node r k)" "\<forall>x\<in>set (node_keys l). x \<le> key (previous_node r k)"
        by (auto intro: less_imp_le order.strict_trans)
      with nn False p show ?thesis
        by (auto simp: previous_node_Node)
    qed
  qed
qed

lemma next_node_spec:
  assumes "ordered t"
  shows "(next_node t k = Null \<longrightarrow> (\<forall>x\<in>set (node_keys t). x \<le> k)) \<and>
         (next_node t k \<noteq> Null \<longrightarrow>
            key (next_node t k) \<in> set (node_keys t) \<and> k < key (next_node t k) \<and>
            (\<forall>x\<in>set (node_keys t). k < x \<longrightarrow> key (next_node t k) \<le> x))"
  using assms
proof (induction t)
  case Null
  show ?case by simp
next
  case (Node c l nk nv r)
  then have IHl: "(next_node l k = Null \<longrightarrow> (\<forall>x\<in>set (node_keys l). x \<le> k)) \<and>
         (next_node l k \<noteq> Null \<longrightarrow>
            key (next_node l k) \<in> set (node_keys l) \<and> k < key (next_node l k) \<and>
            (\<forall>x\<in>set (node_keys l). k < x \<longrightarrow> key (next_node l k) \<le> x))"
    and IHr: "(next_node r k = Null \<longrightarrow> (\<forall>x\<in>set (node_keys r). x \<le> k)) \<and>
         (next_node r k \<noteq> Null \<longrightarrow>
            key (next_node r k) \<in> set (node_keys r) \<and> k < key (next_node r k) \<and>
            (\<forall>x\<in>set (node_keys r). k < x \<longrightarrow> key (next_node r k) \<le> x))"
    and lb: "\<forall>x\<in>set (node_keys l). x < nk" and rb: "\<forall>x\<in>set (node_keys r). nk < x"
    by simp_all
  show ?case
  proof (cases "nk \<le> k")
    case True
    with lb have "\<forall>x\<in>set (node_keys l). x \<le> k" "\<forall>x\<in>set (node_keys l). \<not> k < x"
      by auto
    with True IHr show ?thesis
      by (auto simp: next_node_Node)
  next
    case False
    then have nk: "k < nk" by simp
    show ?thesis
    proof (cases "next_node l k = Null")
      case True
      with IHl have "\<forall>x\<in>set (node_keys l). x \<le> k" by blast
      then have "\<forall>x\<in>set (node_keys l). \<not> k < x" by auto
      with True False nk rb show ?thesis
        by (auto simp: next_node_Node intro: less_imp_le)
    next
      case nn: False
      with IHl have p: "key (next_node l k) \<in> set (node_keys l)" "k < key (next_node l k)"
        "\<forall>x\<in>set (node_keys l). k < x \<longrightarrow> key (next_node l k) \<le> x"
        by blast+
      from p(1) lb have "key (next_node l k) < nk" by blast
      with rb have "key (next_node l k) \<le> nk" "\<forall>x\<in>set (node_keys r). key (next_node l k) \<le> x"
        by (auto intro: less_imp_le order.strict_trans)
      with nn False p show ?thesis
        by (auto simp: next_node_Node)
    qed
  qed
qed

lemma previous_tree_rel:
  assumes "ordered (root this)"
  shows "case previous_tree this k of
           None \<Rightarrow> \<forall>x\<in>set (node_keys (root this)). k \<le> x
         | Some p \<Rightarrow> p \<in> set (node_keys (root this)) \<and> p < k \<and>
             (\<forall>x\<in>set (node_keys (root this)). x < k \<longrightarrow> x \<le> p)"
  using previous_node_spec [OF assms, of k]
  by (simp add: previous_tree_def Let_def)

lemma next_tree_rel:
  assumes "ordered (root this)"
  shows "case next_tree this k of
           None \<Rightarrow> \<forall>x\<in>set (node_keys (root this)). x \<le> k
         | Some p \<Rightarrow> p \<in> set (node_keys (root this)) \<and> k < p \<and>
             (\<forall>x\<in>set (node_keys (root this)). k < x \<longrightarrow> p \<le> x)"
  using next_node_spec [OF assms, of k]
  by (simp add: next_tree_def Let_def)

lemma previous_tree_Max:
  assumes "ordered (root this)"
  shows "previous_tree this k =
           (if \<exists>x\<in>set (node_keys (root this)). x < k
            then Some (Max {x \<in> set (node_keys (root this)). x < k}) else None)"
proof (cases "previous_tree this k")
  case None
  with previous_tree_rel [OF assms, of k] have "\<forall>x\<in>set (node_keys (root this)). k \<le> x"
    by simp
  then have "\<not> (\<exists>x\<in>set (node_keys (root this)). x < k)" by auto
  with None show ?thesis by simp
next
  case (Some p)
  with previous_tree_rel [OF assms, of k]
  have p: "p \<in> set (node_keys (root this))" "p < k"
    "\<forall>x\<in>set (node_keys (root this)). x < k \<longrightarrow> x \<le> p"
    by simp_all
  then have "Max {x \<in> set (node_keys (root this)). x < k} = p"
    by (intro Max_eqI) auto
  with Some p show ?thesis by auto
qed

lemma next_tree_Min:
  assumes "ordered (root this)"
  shows "next_tree this k =
           (if \<exists>x\<in>set (node_keys (root this)). k < x
            then Some (Min {x \<in> set (node_keys (root this)). k < x}) else None)"
proof (cases "next_tree this k")
  case None
  with next_tree_rel [OF assms, of k] have "\<forall>x\<in>set (node_keys (root this)). x \<le> k"
    by simp
  then have "\<not> (\<exists>x\<in>set (node_keys (root this)). k < x)" by auto
  with None show ?thesis by simp
next
  case (Some p)
  with next_tree_rel [OF assms, of k]
  have p: "p \<in> set (node_keys (root this))" "k < p"
    "\<forall>x\<in>set (node_keys (root this)). k < x \<longrightarrow> p \<le> x"
    by simp_all
  then have "Min {x \<in> set (node_keys (root this)). k < x} = p"
    by (intro Min_eqI) auto
  with Some p show ?thesis by auto
qed

lemma previous_next_1357:
  fixes t :: "(nat, 'w) RedBlackTree"
  assumes "ordered (root t)" "set (node_keys (root t)) = {1, 3, 5, 7}"
  shows "previous_tree t 5 = Some 3 \<and> next_tree t 5 = Some 7 \<and>
         previous_tree t 1 = None \<and> next_tree t 7 = None \<and>
         previous_tree t 4 = Some 3 \<and> next_tree t 4 = Some 5"
  using previous_tree_rel [OF assms(1), of 5] previous_tree_rel [OF assms(1), of 1]
    previous_tree_rel [OF assms(1), of 4] next_tree_rel [OF assms(1), of 5]
    next_tree_rel [OF assms(1), of 7] next_tree_rel [OF assms(1), of 4]
  unfolding assms(2)
  by (auto split: option.splits)

text \<open>
  Claim C6. On a tree whose keys are in order, \<^verbatim>\<open>previous(k)\<close> is the largest stored key
  strictly less than \<open>k\<close> and absent when no stored key is less than \<open>k\<close>; \<^verbatim>\<open>next(k)\<close> is
  the smallest stored key strictly greater than \<open>k\<close> and absent when there is none. For
  every tree holding exactly the keys 1, 3, 5, 7: \<^verbatim>\<open>previous(5) = 3\<close>, \<^verbatim>\<open>next(5) = 7\<close>,
  \<^verbatim>\<open>previous(1)\<close> and \<^verbatim>\<open>next(7)\<close> are absent, \<^verbatim>\<open>previous(4) = 3\<close>, \<^verbatim>\<open>next(4) = 5\<close>.
\<close>

theorem previous_next_spec:
  fixes this :: "('k::linorder, 'v) RedBlackTree" and t :: "(nat, 'w) RedBlackTree"
  assumes "ordered (root this)"
  shows "previous_tree this k =
           (if \<exists>x\<in>set (node_keys (root this)). x < k
            then Some (Max {x \<in> set (node_keys (root this)). x < k}) else None) \<and>
         next_tree this k =
           (if \<exists>x\<in>set (node_keys (root this)). k < x
            then Some (Min {x \<in> set (node_keys (root this)). k < x}) else None) \<and>
         (ordered (root t) \<and> set (node_keys (root t)) = {1, 3, 5, 7} \<longrightarrow>
            previous_tree t 5 = Some 3 \<and> next_tree t 5 = Some 7 \<and>
            previous_tree t 1 = None \<and> next_tree t 7 = None \<and>
            previous_tree t 4 = Some 3 \<and> next_tree t 4 = Some 5)"
  using previous_tree_Max [OF assms] next_tree_Min [OF assms] previous_next_1357 [of t]
  by blast

theorem previous_next_spec_witness:
  "ordered (root tree_1357) \<and>
   new_RedBlackTree [(1, ''a''), (3, ''b''), (7, ''d''), (5, ''c'')] = Some tree_1357 \<and>
   previous_tree tree_1357 5 = Some 3 \<and> next_tree tree_1357 5 = Some 7 \<and>
   previous_tree tree_1357 1 = None \<and> next_tree tree_1357 7 = None \<and>
   previous_tree tree_1357 4 = Some 3 \<and> next_tree tree_1357 4 = Some 5 \<and>
   previous_tree tree_1357 6 = Some (Max {x \<in> {1, 3, 5, 7}. x < 6})"
proof -
  have o: "ordered (root tree_1357)" and s: "set (node_keys (root tree_1357)) = {1, 3, 5, 7}"
    by (auto simp: tree_1357_def)
  have n: "new_RedBlackTree [(1, ''a''), (3, ''b''), (7, ''d''), (5, ''c'')] = Some tree_1357"
    by (simp add: new_RedBlackTree_def empty_tree_def set_tree_def set_node_Node new_Node_def
        fixUp_result_def tree_1357_def)
  from previous_next_spec [OF o, of 6 tree_1357] o s n show ?thesis
    by auto
qed

section \<open>Iterators\<close>

lemma yielded_list:
  assumes fin: "\<And>s. I s \<Longrightarrow> \<alpha> s = [] \<Longrightarrow> \<exists>s'. nxt s = Some (None, s')"
    and step: "\<And>s x xs. I s \<Longrightarrow> \<alpha> s = x # xs \<Longrightarrow>
      \<exists>s'. nxt s = Some (Some x, s') \<and> I s' \<and> \<alpha> s' = xs"
  shows "I s \<Longrightarrow> yielded nxt s = Some (\<alpha> s)"
proof (induction "\<alpha> s" arbitrary: s)
  case Nil
  with fin [of s] obtain s' where "nxt s = Some (None, s')"
    by auto
  with Nil show ?case
    by (subst yielded.simps) simp
next
  case (Cons x xs)
  with step [of s x xs] obtain s' where s': "nxt s = Some (Some x, s')" "I s'" "\<alpha> s' = xs"
    by auto
  with Cons.hyps(1) [of s'] have "yielded nxt s' = Some xs"
    by simp
  with s' Cons.hyps(2) show ?case
    by (subst yielded.simps) simp
qed

lemma entries_next_step:
  "Null \<notin> set stack \<Longrightarrow>
     (remaining (node, stack) = [] \<longrightarrow> entries_next (node, stack) = Some (None, (Null, []))) \<and>
     (\<forall>x xs. remaining (node, stack) = x # xs \<longrightarrow>
        (\<exists>it'. entries_next (node, stack) = Some (Some x, it') \<and>
          Null \<notin> set (snd it') \<and> remaining it' = xs))"
proof (induction "(node, stack)" arbitrary: node stack rule: entries_next.induct)
  case (1 node stack)
  show ?case
  proof (cases node)
    case (Node c l k v r)
    have a: "remaining (l, node # stack) = remaining (node, stack)"
      using Node by simp
    have b: "entries_next (node, stack) = entries_next (l, node # stack)"
      using Node by (subst entries_next.simps) simp
    from 1(2) Node have "Null \<notin> set (node # stack)" by simp
    with 1(1) [of ] Node have
      "(remaining (l, node # stack) = [] \<longrightarrow> entries_next (l, node # stack) = Some (None, (Null, []))) \<and>
       (\<forall>x xs. remaining (l, node # stack) = x # xs \<longrightarrow>
        (\<exists>it'. entries_next (l, node # stack) = Some (Some x, it') \<and>
          Null \<notin> set (snd it') \<and> remaining it' = xs))"
      by simp
    then show ?thesis
      unfolding a b .
  next
    case Null
    show ?thesis
    proof (cases stack)
      case Nil
      with Null show ?thesis
        by (simp add: entries_next.simps)
    next
      case (Cons n ns)
      with 1(2) have "n \<noteq> Null" by auto
      with Null Cons 1(2) show ?thesis
        by (simp add: entries_next.simps Let_def)
    qed
  qed
qed

lemma yielded_entries_next:
  "Null \<notin> set (snd it) \<Longrightarrow> yielded entries_next it = Some (remaining it)"
proof (rule yielded_list [where I = "\<lambda>it. Null \<notin> set (snd it)"], goal_cases)
  case (1 s)
  then show ?case
    using entries_next_step [of "snd s" "fst s"] by (cases s) auto
next
  case (2 s x xs)
  then show ?case
    using entries_next_step [of "snd s" "fst s"] by (cases s) auto
qed

lemma yielded_keys_next:
  "Null \<notin> set (snd it) \<Longrightarrow> yielded keys_next it = Some (map fst (remaining it))"
proof (rule yielded_list [where I = "\<lambda>it. Null \<notin> set (snd it)" and \<alpha> = "\<lambda>it. map fst (remaining it)"],
    goal_cases)
  case (1 s)
  then show ?case
    using entries_next_step [of "snd s" "fst s"] by (cases s) (auto simp: keys_next_def)
next
  case (2 s x xs)
  then obtain e es where "remaining s = e # es" "x = fst e" "xs = map fst es"
    by (cases "remaining s") auto
  with 2 show ?case
    using entries_next_step [of "snd s" "fst s"] by (cases s) (auto simp: keys_next_def)
qed

lemma yielded_values_next:
  "Null \<notin> set (snd it) \<Longrightarrow> yielded values_next it = Some (map snd (remaining it))"
proof (rule yielded_list [where I = "\<lambda>it. Null \<notin> set (snd it)" and \<alpha> = "\<lambda>it. map snd (remaining it)"],
    goal_cases)
  case (1 s)
  then show ?case
    using entries_next_step [of "snd s" "fst s"] by (cases s) (auto simp: values_next_def)
next
  case (2 s x xs)
  then obtain e es where "remaining s = e # es" "x = snd e" "xs = map snd es"
    by (cases "remaining s") auto
  with 2 show ?case
    using entries_next_step [of "snd s" "fst s"] by (cases s) (auto simp: values_next_def)
qed

text \<open>
  Claim C10. For every tree, calling \<^verbatim>\<open>next()\<close> on the iterator of \<^verbatim>\<open>entries()\<close> until it is
  done yields the in-order entries; the iterator of \<^verbatim>\<open>keys()\<close> yields their first components
  and the iterator of \<^verbatim>\<open>values()\<close> their second components, in the same order and number;
  the iterator of \<^verbatim>\<open>[Symbol.iterator]()\<close> yields what the iterator of \<^verbatim>\<open>entries()\<close> yields. No
  call fails and the calls end.
\<close>

theorem iterators_agree:
  "yielded entries_next (entries this) = Some (inorder (root this)) \<and>
   yielded keys_next (keys this) = Some (map fst (inorder (root this))) \<and>
   yielded values_next (values_iterator this) = Some (map snd (inorder (root this))) \<and>
   yielded entries_next (symbol_iterator this) = yielded entries_next (entries this)"
  by (simp add: entries_def keys_def values_iterator_def symbol_iterator_def
      yielded_entries_next yielded_keys_next yielded_values_next)

theorem iterators_agree_witness:
  "yielded entries_next (entries tree_1357) = Some [(1, ''a''), (3, ''b''), (5, ''c''), (7, ''d'')] \<and>
   yielded keys_next (keys tree_1357) = Some [1, 3, 5, 7] \<and>
   yielded values_next (values_iterator tree_1357) = Some [''a'', ''b'', ''c'', ''d'']"
  using iterators_agree [of tree_1357] by (simp add: tree_1357_def)

section \<open>Setting a stored key\<close>

lemma update_value_absent: "k \<notin> set (node_keys t) \<Longrightarrow> update_value k v t = t"
  by (induction t) auto

lemma isRed_update_value [simp]: "isRed (update_value k v t) = isRed t"
  by (cases t) auto

lemma isRed_left_update_value [simp]: "isRed (left (update_value k v t)) = isRed (left t)"
  by (cases t) auto

lemma set_node_present:
  "noRedRight t \<Longrightarrow> noRedLeftLeft t \<Longrightarrow> ordered t \<Longrightarrow> k \<in> set (node_keys t) \<Longrightarrow>
   set_node t k v sz = Some (update_value k v t, sz)"
proof (induction t)
  case Null
  then show ?case by simp
next
  case (Node c l nk nv r)
  from Node.prems have col: "\<not> isRed r" "\<not> (isRed l \<and> isRed (left l))"
    and sub: "noRedRight l" "noRedLeftLeft l" "ordered l" "noRedRight r" "noRedLeftLeft r" "ordered r"
    and lb: "\<forall>x\<in>set (node_keys l). x < nk" and rb: "\<forall>x\<in>set (node_keys r). nk < x"
    by simp_all
  consider (eq) "k = nk" | (lt) "k < nk" | (gt) "nk < k"
    by (metis less_linear)
  then show ?case
  proof cases
    case eq
    with lb rb have "k \<notin> set (node_keys l)" "k \<notin> set (node_keys r)" by auto
    with eq col show ?thesis
      by (simp add: set_node_Node update_value_absent fixUp_result_id)
  next
    case lt
    with rb have r: "k \<notin> set (node_keys r)" by auto
    with lt Node.prems(4) have "k \<in> set (node_keys l)" by auto
    with Node.IH(1) sub have "set_node l k v sz = Some (update_value k v l, sz)"
      by simp
    moreover from lt have "k \<noteq> nk" by simp
    ultimately show ?thesis
      using lt r col by (simp add: set_node_Node update_value_absent fixUp_result_id)
  next
    case gt
    with lb have l: "k \<notin> set (node_keys l)" by auto
    with gt Node.prems(4) have "k \<in> set (node_keys r)" by auto
    with Node.IH(2) sub have "set_node r k v sz = Some (update_value k v r, sz)"
      by simp
    moreover from gt have "k \<noteq> nk" "\<not> k < nk" by simp_all
    ultimately show ?thesis
      using gt l col by (simp add: set_node_Node update_value_absent fixUp_result_id)
  qed
qed

lemma fixUp_identity:
  "n \<noteq> Null \<Longrightarrow> noRedRight n \<Longrightarrow> noRedLeftLeft n \<Longrightarrow> fixUp n = Some n"
  by (cases n) (simp_all add: fixUp_Node fixUp_result_id)

text \<open>
  Claim C9. On a tree that satisfies the invariants, \<^verbatim>\<open>set(k, v)\<close> for a stored key \<open>k\<close> returns
  the tree with the value at \<open>k\<close> replaced and nothing else changed: the shape, the keys,
  the colours and the size are the same (\<open>update_value\<close> touches values only). \<^verbatim>\<open>fixUp\<close> is
  the identity on every node without a red right child and without two red left links in
  a row.
\<close>

theorem set_existing_key:
  assumes "llrb (root this)" "ordered (root this)" "k \<in> set (node_keys (root this))"
  shows "set_tree this k v = Some (this\<lparr>root := update_value k v (root this)\<rparr>) \<and>
         (\<forall>n. n \<noteq> Null \<and> noRedRight n \<and> noRedLeftLeft n \<longrightarrow> fixUp n = Some n)"
proof -
  from assms(1) have c: "noRedRight (root this)" "noRedLeftLeft (root this)" "rootBlack (root this)"
    by (simp_all add: llrb_def)
  from set_node_present [OF c(1,2) assms(2,3)]
  have "set_node (root this) k v (tsize this) = Some (update_value k v (root this), tsize this)" .
  moreover from assms(3) c(3) have "set_color Black (update_value k v (root this)) = update_value k v (root this)"
    by (cases "root this") (auto simp: rootBlack_def)
  ultimately show ?thesis
    by (simp add: set_tree_def fixUp_identity)
qed

theorem set_existing_key_witness:
  "llrb (root tree_1357) \<and> ordered (root tree_1357) \<and> 5 \<in> set (node_keys (root tree_1357)) \<and>
   set_tree tree_1357 5 ''z'' =
     Some \<lparr>root = Node Black (Node Black Null 1 ''a'' Null) 3 ''b''
        (Node Black (Node Red Null 5 ''z'' Null) 7 ''d'' Null), tsize = 4\<rparr>"
proof -
  have h: "llrb (root tree_1357)" "ordered (root tree_1357)" "5 \<in> set (node_keys (root tree_1357))"
    by (auto simp: tree_1357_def llrb_def blackBalanced_def rootBlack_def)
  from set_existing_key [OF h, of "''z''"]
  have "set_tree tree_1357 5 ''z'' = Some (tree_1357\<lparr>root := update_value 5 ''z'' (root tree_1357)\<rparr>)"
    by blast
  with h show ?thesis
    by (simp add: tree_1357_def)
qed

section \<open>Deleting a key that is not stored\<close>

text \<open>
  Claim C2. The claim says that \<^verbatim>\<open>delete(k)\<close> for a key that is not stored returns false and
  raises nothing. On the tree that holds the single key 5, \<^verbatim>\<open>delete(3)\<close> fails the assertion
  \<^verbatim>\<open>node.left !== null\<close> of \<^verbatim>\<open>#delete\<close>, while \<^verbatim>\<open>delete(7)\<close> returns false and leaves the tree as
  it was.
\<close>

theorem delete_absent_key_fails:
  "set_tree empty_tree 5 ''a'' = Some tree_5 \<and>
   get_tree tree_5 3 = None \<and>
   delete_tree tree_5 3 = None \<and>
   delete_tree tree_5 7 = Some (False, tree_5)"
  by (simp add: tree_5_def empty_tree_def set_tree_def new_Node_def get_tree_def
      delete_tree_def delete_node.simps lessThan_key_def equality_def fixUp_Node fixUp_result_def)

section \<open>Deletion keeps the invariants\<close>

lemma bh_0_not_red: "bh t = 0 \<Longrightarrow> \<not> isRed t \<Longrightarrow> t = Null"
  by (cases t) auto

lemma not_red_cases:
  "\<not> isRed t \<Longrightarrow> (t = Null \<Longrightarrow> P) \<Longrightarrow> (\<And>l k v r. t = Node Black l k v r \<Longrightarrow> P) \<Longrightarrow> P"
  by (cases t) auto

lemma inorder_set_left [simp]: "n \<noteq> Null \<Longrightarrow> inorder (set_left l' n) = inorder l' @ (key n, val n) # inorder (right n)"
  by (cases n) auto

lemma inorder_set_right [simp]: "n \<noteq> Null \<Longrightarrow> inorder (set_right r' n) = inorder (left n) @ (key n, val n) # inorder r'"
  by (cases n) auto

lemma descend_left:
  assumes "delpre h" "\<not> isRed (right h)" "left h \<noteq> Null"
  shows "\<exists>n'. (if \<not> isRed (left h) \<and> \<not> isRed (left (left h)) then moveRedLeft h else Some h) = Some n' \<and>
           n' \<noteq> Null \<and> left n' \<noteq> Null \<and> size (left n') < size h \<and>
           delpre (left n') \<and> \<not> isRed (right (left n')) \<and> inorder n' = inorder h \<and>
           (\<forall>l'. post (left n') l' \<longrightarrow> post h (fixUp_result (set_left l' n'))) \<and>
           (key n' = key h \<or> key h \<in> set (node_keys (left n')))"
proof -
  from assms obtain c l k v r where h: "h = Node c l k v r"
    by (cases h) auto
  with assms have l: "l \<noteq> Null" "invc l" "invh l" and r: "\<not> isRed r" "invc r" "invh r" "bh l = bh r"
    by auto
  show ?thesis
  proof (cases "isRed l")
    case True
    then obtain ll lk lv lr where l': "l = Node Red ll lk lv lr" by (auto elim: isRed_cases)
    with h assms have "c = Black" by (auto split: if_splits)
    with h l' l r show ?thesis
      using fixUp_result_black [of _ r k v]
      by (auto simp: post_def)
  next
    case False
    with l obtain ll lk lv lr where l': "l = Node Black ll lk lv lr" by (auto elim: not_red_cases)
    with h assms r have c: "c = Red" by (auto split: if_splits)
    show ?thesis
    proof (cases "isRed ll")
      case True
      with h l' l r c show ?thesis
        by (auto simp: post_def fixUp_result_id)
    next
      case nll: False
      from l' r have "r \<noteq> Null" by auto
      with r obtain rl rk rv rr where r': "r = Node Black rl rk rv rr" by (auto elim: not_red_cases)
      show ?thesis
      proof (cases "isRed rl")
        case False
        with h l' r' c l r nll show ?thesis
          using fixUp_result_black [of _ "Node Red rl rk rv rr" k v]
          by (auto simp: post_def moveRedLeft_Node)
      next
        case True
        then obtain xl xk xv xr where x: "rl = Node Red xl xk xv xr" by (auto elim: isRed_cases)
        with h l' r' c l r nll show ?thesis
          by (auto simp: post_def moveRedLeft_Node fixUp_result_id)
      qed
    qed
  qed
qed

lemma fixUp_not_Null: "n \<noteq> Null \<Longrightarrow> fixUp n = Some (fixUp_result n)"
  by (cases n) (simp_all add: fixUp_Node)

lemma inorder_fixUp_result': "n \<noteq> Null \<Longrightarrow> inorder (fixUp_result n) = inorder n"
  by (cases n) simp_all

lemma set_left_not_Null [simp]: "(set_left l n = Null) = (n = Null)"
  by (cases n) simp_all

lemma set_right_not_Null [simp]: "(set_right r n = Null) = (n = Null)"
  by (cases n) simp_all

lemma inorder_Nil_iff [simp]: "(inorder t = []) = (t = Null)"
  by (cases t) simp_all

lemma inorder_left_right: "n \<noteq> Null \<Longrightarrow> inorder n = inorder (left n) @ (key n, val n) # inorder (right n)"
  by (cases n) simp_all

lemma deleteMin_node_step:
  assumes "l \<noteq> Null"
    and "(if \<not> isRed l \<and> \<not> isRed (left l) then moveRedLeft (Node c l k v r)
          else Some (Node c l k v r)) = Some n'"
    and "n' \<noteq> Null" "left n' \<noteq> Null"
  shows "deleteMin_node (Node c l k v r) sz =
           (case deleteMin_node (left n') sz of None \<Rightarrow> None
            | Some (l', sz') \<Rightarrow> Some (fixUp_result (set_left l' n'), sz'))"
proof -
  have "deleteMin_node (Node c l k v r) sz =
     Some n' \<bind> (\<lambda>node. assert (left node \<noteq> Null) \<bind> (\<lambda>_.
       deleteMin_node (left node) sz \<bind> (\<lambda>(l', sz).
         fixUp (set_left l' node) \<bind> (\<lambda>node. Some (node, sz)))))"
    unfolding deleteMin_node.simps(2) assms(2) using assms(1) by simp
  with assms(3,4) show ?thesis
    by (simp add: fixUp_not_Null split: option.splits)
qed

lemma deleteMin_node_post:
  "delpre h \<Longrightarrow> \<not> isRed (right h) \<Longrightarrow>
   \<exists>t'. deleteMin_node h sz = Some (t', sz - 1) \<and> post h t' \<and> inorder t' = tl (inorder h)"
proof (induction "size h" arbitrary: h rule: less_induct)
  case less
  from less.prems obtain c l k v r where h: "h = Node c l k v r"
    by (cases h) auto
  show ?case
  proof (cases "l = Null")
    case True
    with h less.prems have "c = Red" "bh r = 0" "\<not> isRed r"
      by (auto split: if_splits)
    then have "r = Null" "c = Red" by (auto dest: bh_0_not_red)
    with h True show ?thesis
      by (simp add: deleteMin_node.simps post_def)
  next
    case False
    with h have "left h \<noteq> Null" by simp
    from descend_left [OF less.prems this] obtain n' where
      n': "(if \<not> isRed (left h) \<and> \<not> isRed (left (left h)) then moveRedLeft h else Some h) = Some n'"
      "n' \<noteq> Null" "left n' \<noteq> Null" "size (left n') < size h"
      "delpre (left n')" "\<not> isRed (right (left n'))" "inorder n' = inorder h"
      "\<forall>l'. post (left n') l' \<longrightarrow> post h (fixUp_result (set_left l' n'))"
      by blast
    from less.hyps [OF n'(4,5,6)] obtain l' where
      l': "deleteMin_node (left n') sz = Some (l', sz - 1)" "post (left n') l'"
      "inorder l' = tl (inorder (left n'))"
      by blast
    from n'(1) have "(if \<not> isRed l \<and> \<not> isRed (left l) then moveRedLeft (Node c l k v r)
          else Some (Node c l k v r)) = Some n'"
      unfolding h by simp
    from deleteMin_node_step [OF False this n'(2,3), of sz] l'(1)
    have 1: "deleteMin_node h sz = Some (fixUp_result (set_left l' n'), sz - 1)"
      unfolding h by simp
    from n'(8) l'(2) have 2: "post h (fixUp_result (set_left l' n'))" by blast
    from n'(2,3) l'(3) have "inorder (fixUp_result (set_left l' n')) = tl (inorder n')"
      by (simp add: inorder_fixUp_result' inorder_left_right [of n'])
    with 1 2 n'(7) show ?thesis by simp
  qed
qed

lemma descend_right:
  assumes "delpre h"
  shows "(\<exists>k v. h = Node Red Null k v Null) \<or>
         (\<exists>n1 n2. (if isRed (left h) then rotateRight h else Some h) = Some n1 \<and>
            n1 \<noteq> Null \<and> right n1 \<noteq> Null \<and>
            (if \<not> isRed (right n1) \<and> \<not> isRed (left (right n1)) then moveRedRight n1 else Some n1) = Some n2 \<and>
            n2 \<noteq> Null \<and> right n2 \<noteq> Null \<and> size (right n2) < size h \<and>
            delpre (right n2) \<and> inorder n2 = inorder h \<and>
            (\<forall>r' k' v'. post (right n2) r' \<longrightarrow>
               post h (fixUp_result (Node (color n2) (left n2) k' v' r'))) \<and>
            (key n2 = key h \<and> \<not> isRed (right (right n2)) \<or>
             key n2 \<in> set (node_keys (left h)) \<and> key (right n2) = key h))"
proof -
  from assms obtain c l k v r where h: "h = Node c l k v r"
    by (cases h) auto
  with assms have l: "invc l" "invh l" and r: "invc r" "invh r" "bh l = bh r"
    by auto
  show ?thesis
  proof (cases c)
    case Black
    show ?thesis
    proof (cases "isRed l")
      case True
      then obtain ll lk lv lr where l': "l = Node Red ll lk lv lr" by (auto elim: isRed_cases)
      with h Black assms have "\<not> isRed r" by auto
      with h Black l' l r show ?thesis
        using fixUp_result_black [of ll]
        by (auto simp: post_def)
    next
      case False
      with h Black assms have "isRed r" by auto
      then obtain rl rk rv rr where r': "r = Node Red rl rk rv rr" by (auto elim: isRed_cases)
      with h Black False l r show ?thesis
        using fixUp_result_black [of l]
        by (auto simp: post_def)
    qed
  next
    case Red
    with h assms have nr: "\<not> isRed l" "\<not> isRed r" by auto
    show ?thesis
    proof (cases "r = Null")
      case True
      with r nr have "l = Null" by (auto dest: bh_0_not_red)
      with True h Red show ?thesis by simp
    next
      case False
      with nr obtain rl rk rv rr where r': "r = Node Black rl rk rv rr" by (auto elim: not_red_cases)
      with r have "l \<noteq> Null" by auto
      with nr obtain ll lk lv lr where l': "l = Node Black ll lk lv lr" by (auto elim: not_red_cases)
      show ?thesis
      proof (cases "isRed rl")
        case True
        with h Red l' r' l r show ?thesis
          by (auto simp: post_def fixUp_result_id)
      next
        case nrl: False
        show ?thesis
        proof (cases "isRed ll")
          case True
          then obtain xl xk xv xr where x: "ll = Node Red xl xk xv xr" by (auto elim: isRed_cases)
          with h Red l' r' l r nrl show ?thesis
            by (auto simp: post_def fixUp_result_id moveRedRight_Node)
        next
          case False
          with h Red l' r' l r nrl show ?thesis
            using fixUp_result_black [of "Node Red ll lk lv lr"]
            by (auto simp: post_def moveRedRight_Node)
        qed
      qed
    qed
  qed
qed

lemma node_collapse: "n \<noteq> Null \<Longrightarrow> Node (color n) (left n) (key n) (val n) (right n) = n"
  by (cases n) simp_all

lemma set_right_Node: "n \<noteq> Null \<Longrightarrow> set_right r' n = Node (color n) (left n) (key n) (val n) r'"
  by (cases n) simp_all

lemma deleteMax_node_step:
  assumes "(if isRed l then rotateRight (Node c l k v r) else Some (Node c l k v r)) = Some n1"
    and "right n1 \<noteq> Null"
    and "(if \<not> isRed (right n1) \<and> \<not> isRed (left (right n1)) then moveRedRight n1 else Some n1) = Some n2"
    and "n2 \<noteq> Null" "right n2 \<noteq> Null"
  shows "deleteMax_node (Node c l k v r) sz =
           (case deleteMax_node (right n2) sz of None \<Rightarrow> None
            | Some (r', sz') \<Rightarrow> Some (fixUp_result (set_right r' n2), sz'))"
proof -
  have "deleteMax_node (Node c l k v r) sz =
     Some n1 \<bind> (\<lambda>node. if right node = Null then Some (Null, sz - 1) else
        (if \<not> isRed (right node) \<and> \<not> isRed (left (right node)) then moveRedRight node else Some node) \<bind>
        (\<lambda>node. assert (right node \<noteq> Null) \<bind> (\<lambda>_.
          deleteMax_node (right node) sz \<bind> (\<lambda>(r', sz).
            fixUp (set_right r' node) \<bind> (\<lambda>node. Some (node, sz))))))"
    unfolding deleteMax_node.simps(2) assms(1) by simp
  also have "\<dots> = Some n2 \<bind> (\<lambda>node. assert (right node \<noteq> Null) \<bind> (\<lambda>_.
          deleteMax_node (right node) sz \<bind> (\<lambda>(r', sz).
            fixUp (set_right r' node) \<bind> (\<lambda>node. Some (node, sz)))))"
    using assms(2) unfolding assms(3) [symmetric] by simp
  finally show ?thesis
    using assms(4,5) by (simp add: fixUp_not_Null split: option.splits)
qed

lemma deleteMax_node_post:
  "delpre h \<Longrightarrow>
   \<exists>t'. deleteMax_node h sz = Some (t', sz - 1) \<and> post h t' \<and> inorder t' = butlast (inorder h)"
proof (induction "size h" arbitrary: h rule: less_induct)
  case less
  from less.prems obtain c l k v r where h: "h = Node c l k v r"
    by (cases h) auto
  from descend_right [OF less.prems]
  consider (leaf) k v where "h = Node Red Null k v Null"
    | (desc) n1 n2 where "(if isRed (left h) then rotateRight h else Some h) = Some n1"
        "n1 \<noteq> Null" "right n1 \<noteq> Null"
        "(if \<not> isRed (right n1) \<and> \<not> isRed (left (right n1)) then moveRedRight n1 else Some n1) = Some n2"
        "n2 \<noteq> Null" "right n2 \<noteq> Null" "size (right n2) < size h"
        "delpre (right n2)" "inorder n2 = inorder h"
        "\<forall>r' k' v'. post (right n2) r' \<longrightarrow> post h (fixUp_result (Node (color n2) (left n2) k' v' r'))"
    by blast
  then show ?case
  proof cases
    case leaf
    then show ?thesis
      by (simp add: deleteMax_node.simps post_def)
  next
    case desc
    from less.hyps [OF desc(7,8)] obtain r' where
      r': "deleteMax_node (right n2) sz = Some (r', sz - 1)" "post (right n2) r'"
      "inorder r' = butlast (inorder (right n2))"
      by blast
    from desc(1) have "(if isRed l then rotateRight (Node c l k v r) else Some (Node c l k v r)) = Some n1"
      unfolding h by simp
    from deleteMax_node_step [OF this desc(3,4,5,6), of sz] r'(1)
    have 1: "deleteMax_node h sz = Some (fixUp_result (set_right r' n2), sz - 1)"
      unfolding h by simp
    from desc(10) r'(2) desc(5) have 2: "post h (fixUp_result (set_right r' n2))"
      by (simp add: set_right_Node)
    from desc(5,6) r'(3) have "inorder (fixUp_result (set_right r' n2)) = butlast (inorder n2)"
      by (simp add: inorder_fixUp_result' inorder_left_right [of n2] butlast_append)
    with 1 2 desc(9) show ?thesis by simp
  qed
qed

lemma min_node_hd: "t \<noteq> Null \<Longrightarrow> (key (min_node t), val (min_node t)) = hd (inorder t)"
  by (induction t) auto

lemma ordered_cong: "inorder t' = inorder t \<Longrightarrow> ordered t' = ordered t"
  by (simp add: ordered_def node_keys_def)

lemma node_keys_cong: "inorder t' = inorder t \<Longrightarrow> node_keys t' = node_keys t"
  by (simp add: node_keys_def)

lemma ordered_parts:
  "ordered n \<Longrightarrow> n \<noteq> Null \<Longrightarrow>
   ordered (left n) \<and> ordered (right n) \<and> (\<forall>x\<in>set (node_keys (left n)). x < key n) \<and>
   (\<forall>y\<in>set (node_keys (right n)). key n < y)"
  by (cases n) simp_all

lemma node_keys_parts:
  "n \<noteq> Null \<Longrightarrow> set (node_keys n) = set (node_keys (left n)) \<union> {key n} \<union> set (node_keys (right n))"
  by (cases n) auto

lemma filter_neq_id:
  "k \<notin> set (node_keys t) \<Longrightarrow> filter (\<lambda>e. fst e \<noteq> k) (inorder t) = inorder t"
  by (auto simp: node_keys_def filter_id_conv)

lemma delete_node_left_step:
  assumes "k < nk" "l \<noteq> Null"
    and "(if \<not> isRed l \<and> \<not> isRed (left l) then moveRedLeft (Node c l nk nv r)
          else Some (Node c l nk nv r)) = Some n'"
    and "n' \<noteq> Null" "left n' \<noteq> Null"
  shows "delete_node (Node c l nk nv r) k sz =
           (case delete_node (left n') k sz of None \<Rightarrow> None
            | Some (l', sz') \<Rightarrow> Some (fixUp_result (set_left l' n'), sz'))"
proof -
  have c: "(if \<not> isRed l then
              (if \<not> isRed (left l) then moveRedLeft (Node c l nk nv r) else Some (Node c l nk nv r))
            else Some (Node c l nk nv r)) = Some n'"
    using assms(3) by (auto split: if_splits)
  have "delete_node (Node c l nk nv r) k sz =
     Some n' \<bind> (\<lambda>node. assert (left node \<noteq> Null) \<bind> (\<lambda>_.
       delete_node (left node) k sz \<bind> (\<lambda>(l', sz).
         fixUp (set_left l' node) \<bind> (\<lambda>node. Some (node, sz)))))"
    unfolding delete_node.simps(2) c using assms(1,2) by (simp add: lessThan_key_def)
  with assms(4,5) show ?thesis
    by (simp add: fixUp_not_Null split: option.splits)
qed

lemma delete_node_right_step:
  assumes "\<not> k < nk"
    and "(if isRed l then rotateRight (Node c l nk nv r) else Some (Node c l nk nv r)) = Some n1"
    and "right n1 \<noteq> Null"
    and "(if \<not> isRed (right n1) \<and> \<not> isRed (left (right n1)) then moveRedRight n1 else Some n1) = Some n2"
    and "n2 \<noteq> Null" "right n2 \<noteq> Null"
  shows "delete_node (Node c l nk nv r) k sz =
     (if k = key n2 then
        (case deleteMin_node (right n2) sz of None \<Rightarrow> None
         | Some (r', sz') \<Rightarrow>
             Some (fixUp_result (Node (color n2) (left n2) (key (min_node (right n2)))
                     (val (min_node (right n2))) r'), sz'))
      else
        (case delete_node (right n2) k sz of None \<Rightarrow> None
         | Some (r', sz') \<Rightarrow>
             Some (fixUp_result (Node (color n2) (left n2) (key n2) (val n2) r'), sz')))"
proof -
  have c: "(if \<not> isRed (right n1) then
              (if right n1 \<noteq> Null \<and> \<not> isRed (left (right n1)) then moveRedRight n1 else Some n1)
            else Some n1) = Some n2"
    using assms(3,4) by (auto split: if_splits)
  have "delete_node (Node c l nk nv r) k sz =
     Some n1 \<bind> (\<lambda>node.
        if equality k (key node) \<and> right node = Null then Some (Null, sz - 1)
        else
          (if \<not> isRed (right node) then
             (if right node \<noteq> Null \<and> \<not> isRed (left (right node)) then moveRedRight node
              else Some node)
           else Some node) \<bind> (\<lambda>node.
          (if equality k (key node) then
             assert (right node \<noteq> Null) \<bind> (\<lambda>_.
               let min = min_node (right node);
                   node = set_key (key min) node;
                   node = set_val (val min) node
               in deleteMin_node (right node) sz \<bind> (\<lambda>(r', sz). Some (set_right r' node, sz)))
           else if right node \<noteq> Null then
             delete_node (right node) k sz \<bind> (\<lambda>(r', sz). Some (set_right r' node, sz))
           else Some (node, sz)) \<bind> (\<lambda>(node, sz).
          fixUp node \<bind> (\<lambda>node. Some (node, sz)))))"
    unfolding delete_node.simps(2) assms(2) using assms(1) by (simp add: lessThan_key_def)
  also have "\<dots> = Some n2 \<bind> (\<lambda>node.
          (if equality k (key node) then
             assert (right node \<noteq> Null) \<bind> (\<lambda>_.
               let min = min_node (right node);
                   node = set_key (key min) node;
                   node = set_val (val min) node
               in deleteMin_node (right node) sz \<bind> (\<lambda>(r', sz). Some (set_right r' node, sz)))
           else if right node \<noteq> Null then
             delete_node (right node) k sz \<bind> (\<lambda>(r', sz). Some (set_right r' node, sz))
           else Some (node, sz)) \<bind> (\<lambda>(node, sz).
          fixUp node \<bind> (\<lambda>node. Some (node, sz))))"
    using assms(3) unfolding c [symmetric] by simp
  finally show ?thesis
    using assms(5,6)
    by (cases n2) (auto simp: fixUp_Node equality_def Let_def split: option.splits)
qed

lemma delete_node_post:
  "delpre h \<Longrightarrow> ordered h \<Longrightarrow> (isRed (right h) \<longrightarrow> \<not> k < key h) \<Longrightarrow>
   (delete_node h k sz = None \<and> k \<notin> set (node_keys h)) \<or>
   (\<exists>t'. delete_node h k sz = Some (t', if k \<in> set (node_keys h) then sz - 1 else sz) \<and>
      post h t' \<and> inorder t' = filter (\<lambda>e. fst e \<noteq> k) (inorder h))"
proof (induction "size h" arbitrary: h rule: less_induct)
  case less
  from less.prems(1) obtain c l nk nv r where h: "h = Node c l nk nv r"
    by (cases h) auto
  from less.prems(2) h have lb: "\<forall>x\<in>set (node_keys l). x < nk" and rb: "\<forall>y\<in>set (node_keys r). nk < y"
    by simp_all
  show ?case
  proof (cases "k < nk")
    case True
    with less.prems(3) h have nr: "\<not> isRed (right h)" by auto
    from True rb have kr: "k \<noteq> nk" "k \<notin> set (node_keys r)" by auto
    show ?thesis
    proof (cases "l = Null")
      case Null: True
      with True h have "delete_node h k sz = None"
        by (simp add: delete_node.simps lessThan_key_def)
      with Null h kr show ?thesis by simp
    next
      case False
      with h have "left h \<noteq> Null" by simp
      from descend_left [OF less.prems(1) nr this] obtain n' where
        n': "(if \<not> isRed (left h) \<and> \<not> isRed (left (left h)) then moveRedLeft h else Some h) = Some n'"
        "n' \<noteq> Null" "left n' \<noteq> Null" "size (left n') < size h"
        "delpre (left n')" "\<not> isRed (right (left n'))" "inorder n' = inorder h"
        "\<forall>l'. post (left n') l' \<longrightarrow> post h (fixUp_result (set_left l' n'))"
        "key n' = key h \<or> key h \<in> set (node_keys (left n'))"
        by blast
      from ordered_cong [OF n'(7)] less.prems(2) have "ordered n'" by simp
      from ordered_parts [OF this n'(2)] have o: "ordered (left n')"
        "\<forall>x\<in>set (node_keys (left n')). x < key n'" "\<forall>y\<in>set (node_keys (right n')). key n' < y"
        by simp_all
      from n'(9) o(2) h have "nk \<le> key n'" by auto
      with True have kn: "k < key n'" by simp
      with o(3) have kk: "k \<noteq> key n'" "k \<notin> set (node_keys (right n'))" by auto
      have "set (node_keys h) = set (node_keys (left n')) \<union> {key n'} \<union> set (node_keys (right n'))"
        using node_keys_parts [OF n'(2)] node_keys_cong [OF n'(7)] by simp
      with kk have kmem: "(k \<in> set (node_keys h)) = (k \<in> set (node_keys (left n')))"
        by simp
      from n'(1) have pre: "(if \<not> isRed l \<and> \<not> isRed (left l) then moveRedLeft (Node c l nk nv r)
          else Some (Node c l nk nv r)) = Some n'"
        unfolding h by simp
      note step = delete_node_left_step [OF True False pre n'(2,3), of sz]
      from n'(6) have c3: "isRed (right (left n')) \<longrightarrow> \<not> k < key (left n')"
        by simp
      from less.hyps [OF n'(4,5) o(1) c3]
      consider (fail) "delete_node (left n') k sz = None" "k \<notin> set (node_keys (left n'))"
        | (ok) l' where
          "delete_node (left n') k sz = Some (l', if k \<in> set (node_keys (left n')) then sz - 1 else sz)"
          "post (left n') l'" "inorder l' = filter (\<lambda>e. fst e \<noteq> k) (inorder (left n'))"
        by (elim disjE conjE exE) auto
      then show ?thesis
      proof cases
        case fail
        from step fail(1) have "delete_node h k sz = None"
          unfolding h by simp
        with fail(2) kmem show ?thesis by simp
      next
        case ok
        from step ok(1) have "delete_node h k sz =
            Some (fixUp_result (set_left l' n'), if k \<in> set (node_keys (left n')) then sz - 1 else sz)"
          unfolding h by simp
        then have 1: "delete_node h k sz =
            Some (fixUp_result (set_left l' n'), if k \<in> set (node_keys h) then sz - 1 else sz)"
          unfolding kmem .
        from n'(8) ok(2) have 2: "post h (fixUp_result (set_left l' n'))" by blast
        have "inorder (fixUp_result (set_left l' n')) =
            filter (\<lambda>e. fst e \<noteq> k) (inorder (left n')) @ (key n', val n') # inorder (right n')"
          using n'(2) ok(3) by (simp add: inorder_fixUp_result')
        also have "\<dots> = filter (\<lambda>e. fst e \<noteq> k) (inorder n')"
          using kk n'(2) by (simp add: inorder_left_right [of n'] filter_neq_id)
        finally have 3: "inorder (fixUp_result (set_left l' n')) = filter (\<lambda>e. fst e \<noteq> k) (inorder h)"
          using n'(7) by simp
        from 1 2 3 show ?thesis by blast
      qed
    qed
  next
    case False
    from descend_right [OF less.prems(1)]
    consider (leaf) k' v' where "h = Node Red Null k' v' Null"
      | (desc) n1 n2 where "(if isRed (left h) then rotateRight h else Some h) = Some n1"
        "n1 \<noteq> Null" "right n1 \<noteq> Null"
        "(if \<not> isRed (right n1) \<and> \<not> isRed (left (right n1)) then moveRedRight n1 else Some n1) = Some n2"
        "n2 \<noteq> Null" "right n2 \<noteq> Null" "size (right n2) < size h"
        "delpre (right n2)" "inorder n2 = inorder h"
        "\<forall>r' k' v'. post (right n2) r' \<longrightarrow> post h (fixUp_result (Node (color n2) (left n2) k' v' r'))"
        "key n2 = key h \<and> \<not> isRed (right (right n2)) \<or>
         key n2 \<in> set (node_keys (left h)) \<and> key (right n2) = key h"
      by blast
    then show ?thesis
    proof cases
      case leaf
      with h have l: "h = Node Red Null nk nv Null" by simp
      show ?thesis
      proof (cases "k = nk")
        case True
        with l show ?thesis
          by (simp add: delete_node.simps lessThan_key_def equality_def post_def)
      next
        case ne: False
        with l False show ?thesis
          by (simp add: delete_node.simps lessThan_key_def equality_def post_def fixUp_Node
              fixUp_result_id)
      qed
    next
      case desc
      from ordered_cong [OF desc(9)] less.prems(2) have "ordered n2" by simp
      from ordered_parts [OF this desc(5)] have o: "ordered (right n2)"
        "\<forall>x\<in>set (node_keys (left n2)). x < key n2" "\<forall>y\<in>set (node_keys (right n2)). key n2 < y"
        by simp_all
      from desc(11) lb h have le: "key n2 \<le> nk" by auto
      with False have kn: "key n2 \<le> k" by simp
      with o(2) have kl: "k \<notin> set (node_keys (left n2))" by auto
      have keys: "set (node_keys h) = set (node_keys (left n2)) \<union> {key n2} \<union> set (node_keys (right n2))"
        using node_keys_parts [OF desc(5)] node_keys_cong [OF desc(9)] by simp
      then have kin: "k = key n2 \<Longrightarrow> k \<in> set (node_keys h)" by simp
      from keys kl have kmem: "k \<noteq> key n2 \<Longrightarrow> (k \<in> set (node_keys h)) = (k \<in> set (node_keys (right n2)))"
        by simp
      from desc(1) have pre: "(if isRed l then rotateRight (Node c l nk nv r) else Some (Node c l nk nv r)) = Some n1"
        unfolding h by simp
      note step = delete_node_right_step [OF False pre desc(3,4,5,6), of sz]
      show ?thesis
      proof (cases "k = key n2")
        case True
        with desc(11) lb False h have nrr: "\<not> isRed (right (right n2))" by auto
        from True o(3) have kr: "k \<notin> set (node_keys (right n2))" by auto
        from deleteMin_node_post [OF desc(8) nrr, of sz] obtain r' where
          r': "deleteMin_node (right n2) sz = Some (r', sz - 1)" "post (right n2) r'"
          "inorder r' = tl (inorder (right n2))"
          by blast
        let ?t = "fixUp_result (Node (color n2) (left n2) (key (min_node (right n2)))
                     (val (min_node (right n2))) r')"
        from step True r'(1) have "delete_node h k sz = Some (?t, sz - 1)"
          unfolding h by simp
        with kin [OF True] have 1: "delete_node h k sz =
            Some (?t, if k \<in> set (node_keys h) then sz - 1 else sz)"
          by simp
        from desc(10) r'(2) have 2: "post h ?t" by blast
        have "inorder ?t = inorder (left n2) @ hd (inorder (right n2)) # tl (inorder (right n2))"
          using r'(3) desc(6) by (simp add: min_node_hd)
        also have "\<dots> = inorder (left n2) @ inorder (right n2)"
          using desc(6) by simp
        also have "\<dots> = filter (\<lambda>e. fst e \<noteq> k) (inorder n2)"
          using kl kr True desc(5) by (simp add: inorder_left_right [of n2] filter_neq_id)
        finally have 3: "inorder ?t = filter (\<lambda>e. fst e \<noteq> k) (inorder h)"
          using desc(9) by simp
        from 1 2 3 show ?thesis by blast
      next
        case ne: False
        from desc(11) False h have c3: "isRed (right (right n2)) \<longrightarrow> \<not> k < key (right n2)"
          by auto
        let ?t = "\<lambda>r'. fixUp_result (Node (color n2) (left n2) (key n2) (val n2) r')"
        from less.hyps [OF desc(7,8) o(1) c3]
        consider (fail) "delete_node (right n2) k sz = None" "k \<notin> set (node_keys (right n2))"
          | (ok) r' where
            "delete_node (right n2) k sz = Some (r', if k \<in> set (node_keys (right n2)) then sz - 1 else sz)"
            "post (right n2) r'" "inorder r' = filter (\<lambda>e. fst e \<noteq> k) (inorder (right n2))"
          by (elim disjE conjE exE) auto
        then show ?thesis
        proof cases
          case fail
          from step ne fail(1) have "delete_node h k sz = None"
            unfolding h by simp
          with fail(2) kmem [OF ne] show ?thesis by simp
        next
          case ok
          from step ne ok(1) have "delete_node h k sz =
              Some (?t r', if k \<in> set (node_keys (right n2)) then sz - 1 else sz)"
            unfolding h by simp
          then have 1: "delete_node h k sz =
              Some (?t r', if k \<in> set (node_keys h) then sz - 1 else sz)"
            unfolding kmem [OF ne] .
          from desc(10) ok(2) have 2: "post h (?t r')" by blast
          have "inorder (?t r') =
              inorder (left n2) @ (key n2, val n2) # filter (\<lambda>e. fst e \<noteq> k) (inorder (right n2))"
            using ok(3) by simp
          also have "\<dots> = filter (\<lambda>e. fst e \<noteq> k) (inorder n2)"
            using kl ne desc(5) by (simp add: inorder_left_right [of n2] filter_neq_id)
          finally have 3: "inorder (?t r') = filter (\<lambda>e. fst e \<noteq> k) (inorder h)"
            using desc(9) by simp
          from 1 2 3 show ?thesis by blast
        qed
      qed
    qed
  qed
qed

lemma fixUp_result_flip:
  "fixUp_result (flipColor (Node c l k v r)) = flipColor (fixUp_result (Node c l k v r))"
  by (cases c) (auto simp: fixUp_result_def)

lemma fixUp_flip:
  "fixUp (flipColor (Node c l k v r)) = map_option flipColor (fixUp (Node c l k v r))"
  using fixUp_result_flip [of c l k v r] by (simp add: fixUp_Node del: flipColor_simps) (simp add: fixUp_Node)

lemma moveRedLeft_flip:
  "moveRedLeft (Node Black l k v r) = map_option flipColor (moveRedLeft (Node Red l k v r))"
  by (simp add: moveRedLeft_Node)

lemma moveRedRight_flip:
  "moveRedRight (Node Black l k v r) = map_option flipColor (moveRedRight (Node Red l k v r))"
  by (simp add: moveRedRight_Node)

lemma rotateRight_flip:
  "rotateRight (Node Black l k v r) = map_option flipColor (rotateRight (Node Red l k v r))"
  by (cases l) simp_all

lemma deleteMin_node_flip:
  fixes l :: "('k, 'v) node"
  shows "deleteMin_node (Node Black l k v r) sz =
     map_option (apfst flipColor) (deleteMin_node (Node Red l k v r) sz)"
proof (cases "l = Null")
  case True
  then show ?thesis by (simp add: deleteMin_node.simps)
next
  case False
  define P where "P c = (if \<not> isRed l \<and> \<not> isRed (left l) then moveRedLeft (Node c l k v r)
      else Some (Node c l k v r))" for c
  define K where "K node = assert (left node \<noteq> Null) \<bind> (\<lambda>_.
       deleteMin_node (left node) sz \<bind> (\<lambda>(l', sz).
         fixUp (set_left l' node) \<bind> (\<lambda>node. Some (node, sz))))" for node :: "('k, 'v) node"
  have P: "P Black = map_option flipColor (P Red)"
    by (simp add: P_def moveRedLeft_flip)
  have K: "K (flipColor n) = map_option (apfst flipColor) (K n)" if "n \<noteq> Null" for n
  proof -
    from that obtain c' l' k' v' r' where n: "n = Node c' l' k' v' r'" by (cases n) auto
    have "fixUp (Node (if c' = Red then Black else Red) a k' v' r') =
        map_option flipColor (fixUp (Node c' a k' v' r'))" for a
      using fixUp_flip [of c' a k' v' r'] by simp
    then show ?thesis
      unfolding n
      by (cases "deleteMin_node l' sz") (auto simp: K_def fixUp_Node)
  qed
  have red: "n \<noteq> Null" if "P Red = Some n" for n
    using that by (auto simp: P_def moveRedLeft_Node split: if_splits)
  have D: "deleteMin_node (Node c l k v r) sz = P c \<bind> K" for c
    using False unfolding P_def K_def by (simp add: deleteMin_node.simps)
  show ?thesis
    unfolding D P using K red
    by (cases "P Red") (simp_all add: bind_map_option)
qed

lemma moveRedLeft_flip':
  "moveRedLeft (flipColor (Node c l k v r)) = map_option flipColor (moveRedLeft (Node c l k v r))"
  by (cases c) (simp_all add: moveRedLeft_Node)

lemma moveRedRight_flip':
  "moveRedRight (flipColor (Node c l k v r)) = map_option flipColor (moveRedRight (Node c l k v r))"
  by (cases c) (simp_all add: moveRedRight_Node)

lemma fixUp_flip_Node:
  "fixUp (Node (if c = Red then Black else Red) l k v r) = map_option flipColor (fixUp (Node c l k v r))"
  using fixUp_flip [of c l k v r] by simp

lemma moveRedRight_flip_Node:
  "moveRedRight (Node (if c = Red then Black else Red) l k v r) =
     map_option flipColor (moveRedRight (Node c l k v r))"
  using moveRedRight_flip' [of c l k v r] by simp

lemma deleteMax_node_flip:
  fixes l :: "('k, 'v) node"
  shows "deleteMax_node (Node Black l k v r) sz =
     map_option (apfst flipColor) (deleteMax_node (Node Red l k v r) sz)"
proof -
  define P1 where "P1 c = (if isRed l then rotateRight (Node c l k v r) else Some (Node c l k v r))" for c
  define P2 where "P2 node =
      (if \<not> isRed (right node) \<and> \<not> isRed (left (right node)) then moveRedRight node else Some node)"
    for node :: "('k, 'v) node"
  define K2 where "K2 node = assert (right node \<noteq> Null) \<bind> (\<lambda>_.
       deleteMax_node (right node) sz \<bind> (\<lambda>(r', sz).
         fixUp (set_right r' node) \<bind> (\<lambda>node. Some (node, sz))))" for node :: "('k, 'v) node"
  define K1 where "K1 node = (if right node = Null then Some (Null, sz - 1) else P2 node \<bind> K2)"
    for node :: "('k, 'v) node"
  have D: "deleteMax_node (Node c l k v r) sz = P1 c \<bind> K1" for c
    unfolding P1_def K1_def P2_def K2_def by (simp add: deleteMax_node.simps)
  have P1: "P1 Black = map_option flipColor (P1 Red)"
    by (simp add: P1_def rotateRight_flip)
  have nn1: "n \<noteq> Null" if "P1 Red = Some n" for n
    using that by (auto simp: P1_def split: if_splits dest: size_rotateRight)
  have P2: "P2 (flipColor n) = map_option flipColor (P2 n)" if "n \<noteq> Null" for n
    using that by (cases n) (simp_all add: P2_def moveRedRight_flip_Node)
  have nn2: "m \<noteq> Null" if "P2 n = Some m" "n \<noteq> Null" for n m
    using that by (auto simp: P2_def split: if_splits dest: size_moveRedRight)
  have K2: "K2 (flipColor n) = map_option (apfst flipColor) (K2 n)" if "n \<noteq> Null" for n
  proof -
    from that obtain c' l' k' v' r' where n: "n = Node c' l' k' v' r'" by (cases n) auto
    have "fixUp (Node (if c' = Red then Black else Red) l' k' v' a) =
        map_option flipColor (fixUp (Node c' l' k' v' a))" for a
      by (rule fixUp_flip_Node)
    then show ?thesis
      unfolding n
      by (cases "deleteMax_node r' sz") (auto simp: K2_def fixUp_Node)
  qed
  have K1: "K1 (flipColor n) = map_option (apfst flipColor) (K1 n)" if "n \<noteq> Null" for n
  proof (cases "P2 n")
    case None
    with that P2 [OF that] show ?thesis
      by (cases n) (auto simp: K1_def)
  next
    case (Some m)
    with nn2 that have "m \<noteq> Null" by blast
    with Some that P2 [OF that] K2 [of m] show ?thesis
      by (cases n) (auto simp: K1_def)
  qed
  show ?thesis
    unfolding D P1 using K1 nn1
    by (cases "P1 Red") (simp_all add: bind_map_option)
qed

lemma moveRedLeft_flip_Node:
  "moveRedLeft (Node (if c = Red then Black else Red) l k v r) =
     map_option flipColor (moveRedLeft (Node c l k v r))"
  using moveRedLeft_flip' [of c l k v r] by simp

lemma delete_node_flip:
  fixes l :: "('k::linorder, 'v) node"
  shows "delete_node (Node Black l nk nv r) k sz =
     map_option (apfst flipColor) (delete_node (Node Red l nk nv r) k sz)"
proof (cases "k < nk")
  case True
  define PL where "PL c = (if \<not> isRed l then
                   (if \<not> isRed (left l) then moveRedLeft (Node c l nk nv r)
                    else Some (Node c l nk nv r))
                 else Some (Node c l nk nv r))" for c
  define KL where "KL node = assert (left node \<noteq> Null) \<bind> (\<lambda>_.
       delete_node (left node) k sz \<bind> (\<lambda>(l', sz).
         fixUp (set_left l' node) \<bind> (\<lambda>node. Some (node, sz))))" for node :: "('k, 'v) node"
  have D: "delete_node (Node c l nk nv r) k sz = assert (l \<noteq> Null) \<bind> (\<lambda>_. PL c \<bind> KL)" for c
    using True unfolding PL_def KL_def by (simp add: delete_node.simps lessThan_key_def)
  have P: "PL Black = map_option flipColor (PL Red)"
    by (simp add: PL_def moveRedLeft_flip)
  have nn: "n \<noteq> Null" if "PL Red = Some n" for n
    using that by (auto simp: PL_def split: if_splits dest: size_moveRedLeft)
  have K: "KL (flipColor n) = map_option (apfst flipColor) (KL n)" if "n \<noteq> Null" for n
  proof -
    from that obtain c' l' k' v' r' where n: "n = Node c' l' k' v' r'" by (cases n) auto
    have "fixUp (Node (if c' = Red then Black else Red) a k' v' r') =
        map_option flipColor (fixUp (Node c' a k' v' r'))" for a
      by (rule fixUp_flip_Node)
    then show ?thesis
      unfolding n
      by (cases "delete_node l' k sz") (auto simp: KL_def fixUp_Node)
  qed
  show ?thesis
    unfolding D P using K nn
    by (cases "PL Red") (simp_all add: bind_map_option)
next
  case False
  define P1 where "P1 c = (if isRed l then rotateRight (Node c l nk nv r) else Some (Node c l nk nv r))" for c
  define P2 where "P2 node =
      (if \<not> isRed (right node) then
         (if right node \<noteq> Null \<and> \<not> isRed (left (right node)) then moveRedRight node
          else Some node)
       else Some node)"
    for node :: "('k, 'v) node"
  define M where "M node =
      (if equality k (key node) then
         assert (right node \<noteq> Null) \<bind> (\<lambda>_.
           let min = min_node (right node);
               node = set_key (key min) node;
               node = set_val (val min) node
           in deleteMin_node (right node) sz \<bind> (\<lambda>(r', sz). Some (set_right r' node, sz)))
       else if right node \<noteq> Null then
         delete_node (right node) k sz \<bind> (\<lambda>(r', sz). Some (set_right r' node, sz))
       else Some (node, sz))" for node :: "('k, 'v) node"
  define K3 where "K3 node = M node \<bind> (\<lambda>(node, sz). fixUp node \<bind> (\<lambda>node. Some (node, sz)))"
    for node :: "('k, 'v) node"
  define KR where "KR node =
      (if equality k (key node) \<and> right node = Null then Some (Null, sz - 1)
       else P2 node \<bind> K3)" for node :: "('k, 'v) node"
  have D: "delete_node (Node c l nk nv r) k sz = P1 c \<bind> KR" for c
    using False unfolding P1_def KR_def P2_def K3_def M_def
    by (simp add: delete_node.simps lessThan_key_def)
  have P1: "P1 Black = map_option flipColor (P1 Red)"
    by (simp add: P1_def rotateRight_flip)
  have nn1: "n \<noteq> Null" if "P1 Red = Some n" for n
    using that by (auto simp: P1_def split: if_splits dest: size_rotateRight)
  have P2: "P2 (flipColor n) = map_option flipColor (P2 n)" if "n \<noteq> Null" for n
    using that by (cases n) (simp_all add: P2_def moveRedRight_flip_Node)
  have nn2: "m \<noteq> Null" if "P2 n = Some m" "n \<noteq> Null" for n m
    using that by (auto simp: P2_def split: if_splits dest: size_moveRedRight)
  have K3: "K3 (flipColor n) = map_option (apfst flipColor) (K3 n)" if "n \<noteq> Null" for n
  proof -
    from that obtain c' l' k' v' r' where n: "n = Node c' l' k' v' r'" by (cases n) auto
    have F: "fixUp (Node (if c' = Red then Black else Red) l' kk vv a) =
        map_option flipColor (fixUp (Node c' l' kk vv a))" for a kk vv
      by (rule fixUp_flip_Node)
    show ?thesis
    proof (cases "equality k k'")
      case True
      with F show ?thesis
        unfolding n
        by (cases "deleteMin_node r' sz") (auto simp: K3_def M_def Let_def fixUp_Node)
    next
      case False
      with F show ?thesis
        unfolding n
        by (cases "delete_node r' k sz") (auto simp: K3_def M_def Let_def fixUp_Node)
    qed
  qed
  have KR: "KR (flipColor n) = map_option (apfst flipColor) (KR n)" if "n \<noteq> Null" for n
  proof (cases "P2 n")
    case None
    with that P2 [OF that] show ?thesis
      by (cases n) (auto simp: KR_def)
  next
    case (Some m)
    with nn2 that have "m \<noteq> Null" by blast
    with Some that P2 [OF that] K3 [of m] show ?thesis
      by (cases n) (auto simp: KR_def)
  qed
  show ?thesis
    unfolding D P1 using KR nn1
    by (cases "P1 Red") (simp_all add: bind_map_option)
qed

lemma set_color_Black_flipColor [simp]: "set_color Black (flipColor t) = set_color Black t"
  by (cases t) simp_all

lemma invh_flipColor [simp]: "invh (flipColor t) = invh t"
  by (cases t) simp_all

lemma invc_set_color_Black': "invc t \<Longrightarrow> invc (set_color Black t)"
  by (cases t) auto

lemma post_root: "post h t \<Longrightarrow> invc (set_color Black t) \<and> invh t"
  by (simp add: post_def invc_set_color_Black')

lemma deleteMin_node_root:
  assumes "invc h" "invh h" "\<not> isRed h" "h \<noteq> Null"
  shows "\<exists>t. deleteMin_node h sz = Some (t, sz - 1) \<and> invc (set_color Black t) \<and> invh t \<and>
           inorder t = tl (inorder h)"
proof -
  from assms obtain l k v r where h: "h = Node Black l k v r"
    by (cases h) auto
  with assms have r: "\<not> isRed r" by simp
  show ?thesis
  proof (cases "isRed l")
    case True
    with h assms have "delpre h" "\<not> isRed (right h)" by auto
    from deleteMin_node_post [OF this, of sz] show ?thesis
      by (auto dest: post_root)
  next
    case False
    with h assms have "delpre (Node Red l k v r)" "\<not> isRed (right (Node Red l k v r))" by auto
    from deleteMin_node_post [OF this, of sz] obtain t where
      "deleteMin_node (Node Red l k v r) sz = Some (t, sz - 1)" "post (Node Red l k v r) t"
      "inorder t = tl (inorder (Node Red l k v r))"
      by blast
    then show ?thesis
      unfolding h deleteMin_node_flip by (auto dest: post_root)
  qed
qed

lemma deleteMax_node_root:
  assumes "invc h" "invh h" "\<not> isRed h" "h \<noteq> Null"
  shows "\<exists>t. deleteMax_node h sz = Some (t, sz - 1) \<and> invc (set_color Black t) \<and> invh t \<and>
           inorder t = butlast (inorder h)"
proof -
  from assms obtain l k v r where h: "h = Node Black l k v r"
    by (cases h) auto
  with assms have r: "\<not> isRed r" by simp
  show ?thesis
  proof (cases "isRed l")
    case True
    with h assms have "delpre h" by auto
    from deleteMax_node_post [OF this, of sz] show ?thesis
      by (auto dest: post_root)
  next
    case False
    with h assms have "delpre (Node Red l k v r)" by auto
    from deleteMax_node_post [OF this, of sz] obtain t where
      "deleteMax_node (Node Red l k v r) sz = Some (t, sz - 1)" "post (Node Red l k v r) t"
      "inorder t = butlast (inorder (Node Red l k v r))"
      by blast
    then show ?thesis
      unfolding h deleteMax_node_flip by (auto dest: post_root)
  qed
qed

lemma delete_node_root:
  assumes "invc h" "invh h" "\<not> isRed h" "h \<noteq> Null" "ordered h"
  shows "(delete_node h k sz = None \<and> k \<notin> set (node_keys h)) \<or>
         (\<exists>t. delete_node h k sz = Some (t, if k \<in> set (node_keys h) then sz - 1 else sz) \<and>
            invc (set_color Black t) \<and> invh t \<and>
            inorder t = filter (\<lambda>e. fst e \<noteq> k) (inorder h))"
proof -
  from assms obtain l nk nv r where h: "h = Node Black l nk nv r"
    by (cases h) auto
  with assms have r: "\<not> isRed r" by simp
  show ?thesis
  proof (cases "isRed l")
    case True
    with h assms have "delpre h" "isRed (right h) \<longrightarrow> \<not> k < key h" by auto
    from delete_node_post [OF this(1) assms(5) this(2), of sz] show ?thesis
      by (auto dest: post_root)
  next
    case False
    let ?h = "Node Red l nk nv r"
    from False h assms have "delpre ?h" "ordered ?h" "isRed (right ?h) \<longrightarrow> \<not> k < key ?h"
      by auto
    from delete_node_post [OF this, of sz]
    consider "delete_node ?h k sz = None" "k \<notin> set (node_keys ?h)"
      | t where "delete_node ?h k sz = Some (t, if k \<in> set (node_keys ?h) then sz - 1 else sz)"
        "post ?h t" "inorder t = filter (\<lambda>e. fst e \<noteq> k) (inorder ?h)"
      by (elim disjE conjE exE) auto
    then show ?thesis
    proof cases
      case 1
      then show ?thesis
        unfolding h delete_node_flip by simp
    next
      case 2
      then show ?thesis
        unfolding h delete_node_flip by (auto dest: post_root)
    qed
  qed
qed

section \<open>The public delete methods on a valid tree\<close>

lemma length_filter_neq:
  "distinct (map fst es) \<Longrightarrow>
   length (filter (\<lambda>e. fst e \<noteq> k) es) = length es - (if k \<in> set (map fst es) then 1 else 0)"
proof (induction es)
  case Nil
  show ?case by simp
next
  case (Cons e es)
  then show ?case
    by (cases "es = []") (auto simp: Suc_diff_le length_greater_0_conv [symmetric] Suc_leI
        simp del: length_greater_0_conv)
qed

lemma int_length_pred: "es \<noteq> [] \<Longrightarrow> int (length es - Suc 0) = int (length es) - 1"
  by (cases es) simp_all

lemma ordered_distinct: "ordered t \<Longrightarrow> distinct (map fst (inorder t))"
  by (simp add: ordered_def node_keys_def strict_sorted_iff)

lemma ordered_tl: "ordered t \<Longrightarrow> inorder t' = tl (inorder t) \<Longrightarrow> ordered t'"
  by (cases "inorder t") (auto simp: ordered_def node_keys_def)

lemma ordered_butlast: "ordered t \<Longrightarrow> inorder t' = butlast (inorder t) \<Longrightarrow> ordered t'"
  by (simp add: ordered_def node_keys_def sorted_wrt_map butlast_conv_take sorted_wrt_take)

lemma ordered_filter:
  "ordered t \<Longrightarrow> inorder t' = filter (\<lambda>e. fst e \<noteq> k) (inorder t) \<Longrightarrow> ordered t'"
  by (simp add: ordered_def node_keys_def sorted_wrt_map sorted_wrt_filter)

lemma valid_treeI:
  "invc (root this) \<Longrightarrow> invh (root this) \<Longrightarrow> \<not> isRed (root this) \<Longrightarrow> ordered (root this) \<Longrightarrow>
   tsize this = int (length (inorder (root this))) \<Longrightarrow> valid_tree this"
  by (simp add: valid_tree_def llrb_iff)

lemma valid_treeD:
  "valid_tree this \<Longrightarrow> invc (root this) \<and> invh (root this) \<and> \<not> isRed (root this) \<and>
     ordered (root this) \<and> tsize this = int (length (inorder (root this)))"
  by (simp add: valid_tree_def llrb_iff)

lemma deleteMin_tree_valid:
  assumes "valid_tree this"
  shows "\<exists>this'. deleteMin_tree this = Some (root this \<noteq> Null, this') \<and> valid_tree this' \<and>
           inorder (root this') = tl (inorder (root this)) \<and>
           tsize this' = tsize this - (if root this = Null then 0 else 1)"
proof (cases "root this = Null")
  case True
  with assms show ?thesis by (simp add: deleteMin_tree_def)
next
  case False
  from valid_treeD [OF assms] have v: "invc (root this)" "invh (root this)" "\<not> isRed (root this)"
    "ordered (root this)" "tsize this = int (length (inorder (root this)))"
    by simp_all
  from deleteMin_node_root [OF v(1-3) False, of "tsize this"] obtain t where
    t: "deleteMin_node (root this) (tsize this) = Some (t, tsize this - 1)"
    "invc (set_color Black t)" "invh t" "inorder t = tl (inorder (root this))"
    by blast
  let ?this' = "this\<lparr>root := set_color Black t, tsize := tsize this - 1\<rparr>"
  from t(1) False have 1: "deleteMin_tree this = Some (True, ?this')"
    by (cases t) (simp_all add: deleteMin_tree_def Let_def)
  from False have "int (length (inorder (root this)) - Suc 0) = int (length (inorder (root this))) - 1"
    by (simp add: int_length_pred)
  with t v have "valid_tree ?this'"
    by (intro valid_treeI) (auto simp: ordered_tl [OF v(4)])
  with 1 False t(4) show ?thesis by simp
qed

lemma deleteMax_tree_valid:
  assumes "valid_tree this"
  shows "\<exists>this'. deleteMax_tree this = Some (root this \<noteq> Null, this') \<and> valid_tree this' \<and>
           inorder (root this') = butlast (inorder (root this)) \<and>
           tsize this' = tsize this - (if root this = Null then 0 else 1)"
proof (cases "root this = Null")
  case True
  with assms show ?thesis by (simp add: deleteMax_tree_def)
next
  case False
  from valid_treeD [OF assms] have v: "invc (root this)" "invh (root this)" "\<not> isRed (root this)"
    "ordered (root this)" "tsize this = int (length (inorder (root this)))"
    by simp_all
  from deleteMax_node_root [OF v(1-3) False, of "tsize this"] obtain t where
    t: "deleteMax_node (root this) (tsize this) = Some (t, tsize this - 1)"
    "invc (set_color Black t)" "invh t" "inorder t = butlast (inorder (root this))"
    by blast
  let ?this' = "this\<lparr>root := set_color Black t, tsize := tsize this - 1\<rparr>"
  from t(1) False have 1: "deleteMax_tree this = Some (True, ?this')"
    by (cases t) (simp_all add: deleteMax_tree_def Let_def)
  from False have "int (length (inorder (root this)) - Suc 0) = int (length (inorder (root this))) - 1"
    by (simp add: int_length_pred)
  with t v have "valid_tree ?this'"
    by (intro valid_treeI) (auto simp: ordered_butlast [OF v(4)])
  with 1 False t(4) show ?thesis by simp
qed

lemma delete_tree_valid:
  assumes "valid_tree this"
  shows "(delete_tree this k = None \<and> k \<notin> set (node_keys (root this))) \<or>
         (\<exists>this'. delete_tree this k = Some (k \<in> set (node_keys (root this)), this') \<and>
            valid_tree this' \<and>
            inorder (root this') = filter (\<lambda>e. fst e \<noteq> k) (inorder (root this)) \<and>
            tsize this' = tsize this - (if k \<in> set (node_keys (root this)) then 1 else 0))"
proof (cases "root this = Null")
  case True
  with assms show ?thesis by (simp add: delete_tree_def)
next
  case False
  from valid_treeD [OF assms] have v: "invc (root this)" "invh (root this)" "\<not> isRed (root this)"
    "ordered (root this)" "tsize this = int (length (inorder (root this)))"
    by simp_all
  let ?s = "if k \<in> set (node_keys (root this)) then tsize this - 1 else tsize this"
  from delete_node_root [OF v(1-3) False v(4), of k "tsize this"]
  consider (fail) "delete_node (root this) k (tsize this) = None" "k \<notin> set (node_keys (root this))"
    | (ok) t where "delete_node (root this) k (tsize this) = Some (t, ?s)"
      "invc (set_color Black t)" "invh t"
      "inorder t = filter (\<lambda>e. fst e \<noteq> k) (inorder (root this))"
    by (elim disjE conjE exE) auto
  then show ?thesis
  proof cases
    case fail
    with False show ?thesis by (simp add: delete_tree_def)
  next
    case ok
    let ?this' = "this\<lparr>root := set_color Black t, tsize := ?s\<rparr>"
    from ok(1) False have 1: "delete_tree this k = Some (k \<in> set (node_keys (root this)), ?this')"
      by (cases t) (simp_all add: delete_tree_def Let_def)
    have "int (length (filter (\<lambda>e. fst e \<noteq> k) (inorder (root this)))) = ?s"
      using length_filter_neq [OF ordered_distinct [OF v(4)], of k] v(5)
        int_length_pred [of "inorder (root this)"] False
      by (auto simp: node_keys_def)
    with ok v have "valid_tree ?this'"
      by (intro valid_treeI) (auto simp: ordered_filter [OF v(4)])
    with 1 ok(4) show ?thesis by auto
  qed
qed

section \<open>What holds of a valid tree\<close>

lemma node_count_inorder: "node_count t = length (inorder t)"
  by (induction t) simp_all

lemma valid_tree_clear: "valid_tree (clear this)"
  by (simp add: clear_def valid_tree_def llrb_def blackBalanced_def rootBlack_def)

lemma new_RedBlackTree_valid: "new_RedBlackTree es = Some this \<Longrightarrow> valid_tree this"
  using set_entries_valid [OF valid_tree_empty, of es] by (auto simp: new_RedBlackTree_def)

lemma valid_tree_size: "valid_tree this \<Longrightarrow> tsize this = int (node_count (root this))"
  by (simp add: valid_tree_def node_count_inorder)

text \<open>
  On a valid tree the iterator of \<^verbatim>\<open>entries()\<close> ends and yields entries whose keys are strictly
  increasing, without repetition; they are the keys for which \<^verbatim>\<open>get\<close> finds a value.
\<close>

lemma valid_tree_entries:
  assumes "valid_tree this"
  shows "\<exists>es. yielded entries_next (entries this) = Some es \<and>
           sorted_wrt (<) (map fst es) \<and> distinct (map fst es) \<and>
           (\<forall>i. Suc i < length es \<longrightarrow> lessThan_key (fst (es ! i)) (fst (es ! Suc i))) \<and>
           (\<forall>k. (k \<in> set (map fst es)) = (get_tree this k \<noteq> None))"
proof -
  from assms have o: "sorted_wrt (<) (map fst (inorder (root this)))"
    by (simp add: valid_tree_def ordered_def node_keys_def)
  then have d: "distinct (map fst (inorder (root this)))"
    by (simp add: strict_sorted_iff)
  from o have a: "\<forall>i. Suc i < length (inorder (root this)) \<longrightarrow>
      lessThan_key (fst (inorder (root this) ! i)) (fst (inorder (root this) ! Suc i))"
    by (auto simp: sorted_wrt_iff_nth_less lessThan_key_def)
  have g: "\<forall>k. (k \<in> set (map fst (inorder (root this)))) = (get_tree this k \<noteq> None)"
    using assms by (simp add: get_tree_map_of map_of_eq_None_iff)
  have "yielded entries_next (entries this) = Some (inorder (root this))"
    by (simp add: entries_def yielded_entries_next)
  with o d a g show ?thesis by blast
qed

section \<open>Deleting the minimum or the maximum until the tree is empty\<close>

lemma min_node_key: "t \<noteq> Null \<Longrightarrow> key (min_node t) = hd (node_keys t)"
  by (induction t) (auto simp: node_keys_def)

lemma max_node_key: "t \<noteq> Null \<Longrightarrow> key (max_node t) = last (node_keys t)"
  by (induction t) (auto simp: node_keys_def)

lemma node_keys_Nil_iff [simp]: "(node_keys t = []) = (t = Null)"
  by (simp add: node_keys_def)

lemma min_tree_eq: "min_tree this = (if root this = Null then None else Some (hd (node_keys (root this))))"
  by (simp add: min_tree_def min_node_key)

lemma max_tree_eq: "max_tree this = (if root this = Null then None else Some (last (node_keys (root this))))"
  by (simp add: max_tree_def max_node_key)

lemma drain_min_valid: "valid_tree this \<Longrightarrow> drain_min this = Some (node_keys (root this))"
proof (induction "length (inorder (root this))" arbitrary: this)
  case 0
  then show ?case
    by (subst drain_min.simps) (simp add: min_tree_eq)
next
  case (Suc n)
  then have nn: "root this \<noteq> Null" by auto
  from deleteMin_tree_valid [OF Suc.prems] nn obtain this' where
    d: "deleteMin_tree this = Some (True, this')" "valid_tree this'"
    "inorder (root this') = tl (inorder (root this))"
    by auto
  with Suc.hyps(2) have "n = length (inorder (root this'))" by simp
  from Suc.hyps(1) [OF this d(2)] have "drain_min this' = Some (node_keys (root this'))" .
  moreover from d(3) have "node_keys (root this') = tl (node_keys (root this))"
    by (simp add: node_keys_def map_tl)
  ultimately show ?case
    using nn d(1) by (subst drain_min.simps) (simp add: min_tree_eq)
qed

lemma last_rev_butlast: "ks \<noteq> [] \<Longrightarrow> last ks # rev (butlast ks) = rev ks"
  by (cases ks rule: rev_cases) simp_all

lemma drain_max_valid: "valid_tree this \<Longrightarrow> drain_max this = Some (rev (node_keys (root this)))"
proof (induction "length (inorder (root this))" arbitrary: this)
  case 0
  then show ?case
    by (subst drain_max.simps) (simp add: max_tree_eq)
next
  case (Suc n)
  then have nn: "root this \<noteq> Null" by auto
  from deleteMax_tree_valid [OF Suc.prems] nn obtain this' where
    d: "deleteMax_tree this = Some (True, this')" "valid_tree this'"
    "inorder (root this') = butlast (inorder (root this))"
    by auto
  with Suc.hyps(2) have "n = length (inorder (root this'))" by simp
  from Suc.hyps(1) [OF this d(2)] have "drain_max this' = Some (rev (node_keys (root this')))" .
  moreover from d(3) have "node_keys (root this') = butlast (node_keys (root this))"
    by (simp add: node_keys_def map_butlast)
  ultimately have "drain_max this' = Some (rev (butlast (node_keys (root this))))"
    by simp
  with nn d(1) have "drain_max this =
      Some (last (node_keys (root this)) # rev (butlast (node_keys (root this))))"
    by (subst drain_max.simps) (simp add: max_tree_eq)
  also from nn have "last (node_keys (root this)) # rev (butlast (node_keys (root this))) =
      rev (node_keys (root this))"
    by (intro last_rev_butlast) simp
  finally show ?case .
qed

text \<open>
  On a non-empty valid tree \<^verbatim>\<open>deleteMin()\<close> returns true, the size decreases by one, and the
  entry removed is the first in-order entry, whose key is what \<^verbatim>\<open>min()\<close> returns and is the
  least key. Calling \<^verbatim>\<open>min()\<close> and \<^verbatim>\<open>deleteMin()\<close> until the tree is empty (\<open>drain_min\<close>) ends
  and observes the keys in strictly increasing order; \<^verbatim>\<open>max()\<close> and \<^verbatim>\<open>deleteMax()\<close>
  (\<open>drain_max\<close>) observe them in strictly decreasing order.
\<close>

lemma deleteMin_valid_tree:
  assumes "valid_tree this" "root this \<noteq> Null"
  shows "\<exists>this'. deleteMin_tree this = Some (True, this') \<and>
           tsize this' = tsize this - 1 \<and>
           min_tree this = Some (hd (node_keys (root this))) \<and>
           (\<forall>x\<in>set (node_keys (root this)). hd (node_keys (root this)) \<le> x) \<and>
           inorder (root this') = tl (inorder (root this)) \<and>
           drain_min this = Some (node_keys (root this)) \<and>
           sorted_wrt (<) (node_keys (root this)) \<and>
           drain_max this = Some (rev (node_keys (root this))) \<and>
           sorted_wrt (>) (rev (node_keys (root this)))"
proof -
  from deleteMin_tree_valid [OF assms(1)] assms(2) obtain this' where
    d: "deleteMin_tree this = Some (True, this')" "tsize this' = tsize this - 1"
    "inorder (root this') = tl (inorder (root this))"
    by auto
  from assms(1) have s: "sorted_wrt (<) (node_keys (root this))"
    by (simp add: valid_tree_def ordered_def)
  then have r: "sorted_wrt (>) (rev (node_keys (root this)))"
    by (simp add: sorted_wrt_rev)
  from s assms(2) have m: "\<forall>x\<in>set (node_keys (root this)). hd (node_keys (root this)) \<le> x"
    by (cases "node_keys (root this)") (auto intro: less_imp_le)
  from d s r m assms drain_min_valid [OF assms(1)] drain_max_valid [OF assms(1)] show ?thesis
    by (auto simp: min_tree_eq)
qed

section \<open>Concrete runs\<close>

lemmas eval_simps =
  set_tree_def set_node_Node new_Node_def fixUp_result_def fixUp_Node
  delete_tree_def delete_node.simps deleteMin_tree_def deleteMin_node.simps
  deleteMax_tree_def deleteMax_node.simps moveRedLeft_Node moveRedRight_Node
  equality_def lessThan_key_def Let_def empty_tree_def clear_def

lemma valid_tree_1357: "valid_tree tree_1357"
  by (simp add: valid_tree_def tree_1357_def llrb_def blackBalanced_def rootBlack_def)

lemma deleteMin_valid_tree_1357:
  "valid_tree tree_1357 \<and> root tree_1357 \<noteq> Null \<and>
   deleteMin_tree tree_1357 =
     Some (True, \<lparr>root = Node Black (Node Black Null 3 ''b'' Null) 5 ''c''
        (Node Black Null 7 ''d'' Null), tsize = 3\<rparr>) \<and>
   min_tree tree_1357 = Some 1 \<and>
   drain_min tree_1357 = Some [1, 3, 5, 7] \<and> drain_max tree_1357 = Some [7, 5, 3, 1]"
proof -
  have n: "root tree_1357 \<noteq> Null" by (simp add: tree_1357_def)
  have d: "deleteMin_tree tree_1357 =
     Some (True, \<lparr>root = Node Black (Node Black Null 3 ''b'' Null) 5 ''c''
        (Node Black Null 7 ''d'' Null), tsize = 3\<rparr>)"
    by (simp add: tree_1357_def eval_simps)
  from deleteMin_valid_tree [OF valid_tree_1357 n] have
    "min_tree tree_1357 = Some (hd (node_keys (root tree_1357)))"
    "drain_min tree_1357 = Some (node_keys (root tree_1357))"
    "drain_max tree_1357 = Some (rev (node_keys (root tree_1357)))"
    by blast+
  then have "min_tree tree_1357 = Some 1" "drain_min tree_1357 = Some [1, 3, 5, 7]"
    "drain_max tree_1357 = Some [7, 5, 3, 1]"
    by (simp_all add: tree_1357_def)
  with valid_tree_1357 n d show ?thesis by simp
qed

lemma delete_absent_returns:
  assumes "valid_tree this" "k \<notin> set (node_keys (root this))"
    and "delete_tree this k = Some (deleted, this')"
  shows "\<not> deleted \<and> inorder (root this') = inorder (root this) \<and> tsize this' = tsize this \<and>
         valid_tree this'"
  using delete_tree_valid [OF assms(1), of k] assms(2,3)
  by (auto simp: filter_neq_id)

lemma delete_present_returns:
  assumes "valid_tree this" "k \<in> set (node_keys (root this))"
  shows "\<exists>this'. delete_tree this k = Some (True, this') \<and> valid_tree this' \<and>
           get_tree this' k = None \<and> tsize this' = tsize this - 1"
proof -
  from delete_tree_valid [OF assms(1), of k] assms(2) obtain this' where
    d: "delete_tree this k = Some (True, this')" "valid_tree this'"
    "inorder (root this') = filter (\<lambda>e. fst e \<noteq> k) (inorder (root this))"
    "tsize this' = tsize this - 1"
    by auto
  from d(2,3) have "get_tree this' k = None"
    by (auto simp: get_tree_map_of map_of_eq_None_iff)
  with d show ?thesis by simp
qed

section \<open>Calls that follow a call that raised\<close>

text \<open>
  On a valid tree every public call that returns leaves a valid tree, and the only call that
  raises is \<^verbatim>\<open>delete\<close> of a key that is not stored (lemmas \<open>set_tree_valid\<close>,
  \<open>deleteMin_tree_valid\<close>, \<open>deleteMax_tree_valid\<close>, \<open>delete_tree_valid\<close>). Such a call raises
  after \<^verbatim>\<open>#delete\<close> has recoloured and relinked nodes on its way down, and the tree object
  keeps them as they are. The runs of this section are evaluated over the store; they go on
  with the object after the raise.
\<close>

lemmas store_simps =
  new_store_def color_at_def key_at_def value_at_def left_at_def right_at_def
  assign_color_def assign_key_def assign_value_def assign_left_def assign_right_def
  allocate_Node_def isRed_at_def flipColor_at_def flipColors_at_def rotateLeft_at_def
  rotateRight_at_def moveRedLeft_at_def moveRedRight_at_def fixUp_at_def returns_node_def
  min_at.simps set_at.simps deleteMin_at.simps deleteMax_at.simps delete_at.simps
  set_store_def deleteMin_store_def deleteMax_store_def delete_store_def
  clear_store_def subtree.simps tree_of_def equality_def lessThan_key_def Let_def

text \<open>
  A run in which every call returns: the store holds the tree that the methods on the
  datatype \<open>node\<close> compute.
\<close>

lemma store_agrees_example:
  "\<exists>s t.
     calls_store [Call_set (5::nat) ''e'', Call_set 3 ''c'', Call_set 7 ''g'', Call_set 1 ''a'',
        Call_delete 3, Call_deleteMin, Call_set 4 ''d'', Call_deleteMax] new_store =
       Some ([Some This, Some This, Some This, Some This, Some (Bool True), Some (Bool True),
              Some This, Some (Bool True)], s) \<and>
     tree_of s = Some t \<and>
     do {
       this \<leftarrow> new_RedBlackTree [(5, ''e''), (3, ''c''), (7, ''g''), (1, ''a'')];
       (deleted, this) \<leftarrow> delete_tree this 3;
       (deleted, this) \<leftarrow> deleteMin_tree this;
       this \<leftarrow> set_tree this 4 ''d'';
       (deleted, this) \<leftarrow> deleteMax_tree this;
       Some this
     } = Some t"
  by (simp add: store_simps new_RedBlackTree_def eval_simps)

text \<open>
  The tree that holds the single key 5, over the store: \<^verbatim>\<open>delete(3)\<close> raises at the first
  assertion of \<^verbatim>\<open>#delete\<close>, before any assignment, and \<^verbatim>\<open>delete(7)\<close> returns false.
\<close>

lemma store_delete_absent_example:
  "\<exists>s.
     calls_store [Call_set (5::nat) ''a'', Call_delete 3, Call_delete 7] new_store =
       Some ([Some This, None, Some (Bool False)], s) \<and>
     tree_of s = Some tree_5"
  by (simp add: store_simps tree_5_def)

text \<open>
  Claim C1. The claim says that after each call of any sequence of public calls of \<^verbatim>\<open>set\<close>,
  \<^verbatim>\<open>delete\<close>, \<^verbatim>\<open>deleteMin\<close> and \<^verbatim>\<open>deleteMax\<close> on the empty tree no node has a red right child,
  no node has two red left links in a row, all paths cross the same number of black links and
  the root is black. The run \<^verbatim>\<open>set(1)\<close>, \<^verbatim>\<open>set(3)\<close>, \<^verbatim>\<open>set(4)\<close>, \<^verbatim>\<open>delete(0)\<close>, \<^verbatim>\<open>set(2)\<close> breaks it:
  \<^verbatim>\<open>delete(0)\<close> raises at the assertion \<^verbatim>\<open>node.left !== null\<close> of \<^verbatim>\<open>#delete\<close> after \<^verbatim>\<open>moveRedLeft\<close>
  has made the nodes 3, 1 and 4 red, and \<^verbatim>\<open>set(2)\<close> then returns with a tree in which the
  node 3 has the red right child 4.
\<close>

theorem llrb_broken_after_raise:
  "\<exists>s s'.
     calls_store [Call_set (1::nat) ''a'', Call_set 3 ''c'', Call_set 4 ''d'', Call_delete 0]
       new_store = Some ([Some This, Some This, Some This, None], s) \<and>
     tree_of s =
       Some \<lparr>root = Node Red (Node Red Null 1 ''a'' Null) 3 ''c'' (Node Red Null 4 ''d'' Null),
             tsize = 3\<rparr> \<and>
     set_store 2 ''b'' s = Some (Returns This s') \<and>
     tree_of s' =
       Some \<lparr>root = Node Black (Node Black Null 1 ''a'' Null) 2 ''b''
               (Node Black Null 3 ''c'' (Node Red Null 4 ''d'' Null)), tsize = 4\<rparr> \<and>
     \<not> noRedRight (Node Black (Node Black Null 1 ''a'' Null) 2 ''b''
           (Node Black Null (3::nat) ''c'' (Node Red Null 4 ''d'' Null)))"
  by (simp add: store_simps)

text \<open>
  Claim C4. The claim says that on every tree built by \<^verbatim>\<open>set\<close> and \<^verbatim>\<open>delete\<close> calls the iterator
  of \<^verbatim>\<open>entries()\<close> yields every stored key once and in strictly increasing order. In the run
  below \<^verbatim>\<open>delete(4)\<close> and \<^verbatim>\<open>delete(1)\<close> raise; the second raises below \<^verbatim>\<open>#deleteMin\<close>, after
  \<^verbatim>\<open>#delete\<close> has overwritten the key 1 of the root with the key 2 of its successor, which is
  still linked. After the last \<^verbatim>\<open>set\<close> has returned, \<^verbatim>\<open>entries()\<close> yields the key 2 twice, so
  an adjacent pair of yielded keys fails \<^verbatim>\<open>lessThan\<close>.
\<close>

theorem entries_repeat_after_raise:
  "\<exists>s1 s2 s3 t.
     calls_store [Call_set (0::nat) ''a'', Call_set 3 ''d'', Call_set 5 ''f'', Call_delete 4]
       new_store = Some ([Some This, Some This, Some This, None], s1) \<and>
     tree_of s1 =
       Some \<lparr>root = Node Red (Node Red Null 0 ''a'' Null) 3 ''d'' (Node Red Null 5 ''f'' Null),
             tsize = 3\<rparr> \<and>
     calls_store [Call_set 1 ''b'', Call_set 4 ''e'', Call_set 2 ''c'', Call_delete 1] s1 =
       Some ([Some This, Some This, Some This, None], s2) \<and>
     tree_of s2 =
       Some \<lparr>root = Node Red (Node Red Null 0 ''a'' Null) 2 ''c''
               (Node Black
                 (Node Red (Node Black Null 2 ''c'' Null) 3 ''d'' (Node Black Null 4 ''e'' Null))
                 5 ''f'' Null),
             tsize = 6\<rparr> \<and>
     set_store 0 ''z'' s2 = Some (Returns This s3) \<and>
     tree_of s3 = Some t \<and>
     yielded entries_next (entries t) =
       Some [(0, ''z''), (2, ''c''), (2, ''c''), (3, ''d''), (4, ''e''), (5, ''f'')] \<and>
     \<not> sorted_wrt lessThan_key
         (map fst [(0::nat, ''z''), (2, ''c''), (2, ''c''), (3, ''d''), (4, ''e''), (5, ''f'')]) \<and>
     \<not> distinct
         (map fst [(0::nat, ''z''), (2, ''c''), (2, ''c''), (3, ''d''), (4, ''e''), (5, ''f'')])"
  by (simp add: store_simps entries_def yielded_entries_next)

text \<open>
  Claim C5. The claim says that on every non-empty tree \<^verbatim>\<open>deleteMin()\<close> returns true, decreases
  the size by one and removes exactly the minimum key. After \<^verbatim>\<open>set(5)\<close>, \<^verbatim>\<open>set(3)\<close>, \<^verbatim>\<open>set(7)\<close>,
  \<^verbatim>\<open>set(1)\<close> the call \<^verbatim>\<open>delete(6)\<close> raises; \<^verbatim>\<open>moveRedRight\<close> has rotated the root before, so
  \<^verbatim>\<open>#root\<close> still refers to the node 5, which now has no left child and the red right child 7,
  and \<^verbatim>\<open>#size\<close> is 4. On this tree \<^verbatim>\<open>min()\<close> is 5 and \<^verbatim>\<open>deleteMin()\<close> returns true, but it
  removes the keys 5 and 7 together: \<^verbatim>\<open>#deleteMin\<close> unlinks the root, which has no left child,
  with its right subtree.
\<close>

theorem deleteMin_removes_two_after_raise:
  "\<exists>s s'.
     calls_store [Call_set (5::nat) ''e'', Call_set 3 ''c'', Call_set 7 ''g'', Call_set 1 ''a'',
        Call_delete 6] new_store =
       Some ([Some This, Some This, Some This, Some This, None], s) \<and>
     tree_of s = Some \<lparr>root = Node Black Null 5 ''e'' (Node Red Null 7 ''g'' Null), tsize = 4\<rparr> \<and>
     min_tree \<lparr>root = Node Black Null (5::nat) ''e'' (Node Red Null 7 ''g'' Null), tsize = 4\<rparr> =
       Some 5 \<and>
     deleteMin_store s = Some (Returns (Bool True) s') \<and>
     tree_of s' = Some \<lparr>root = Null, tsize = 3\<rparr>"
  by (simp add: store_simps min_tree_def)

text \<open>
  Claim C7. The claim says that after every public mutating call that returns, \<^verbatim>\<open>size\<close> is the
  number of nodes of the tree. After \<^verbatim>\<open>set(5)\<close>, \<^verbatim>\<open>set(3)\<close>, \<^verbatim>\<open>set(7)\<close>, \<^verbatim>\<open>set(1)\<close> the call
  \<^verbatim>\<open>delete(6)\<close> raises and leaves \<^verbatim>\<open>#root\<close> at the node 5, from which the nodes 3 and 1 are no
  longer reachable, while \<^verbatim>\<open>#size\<close> is still 4. The call \<^verbatim>\<open>set(5, 'x')\<close> that follows returns;
  the tree then has the two nodes 5 and 7 and the size 4.
\<close>

theorem size_wrong_after_raise:
  "\<exists>s s'.
     calls_store [Call_set (5::nat) ''e'', Call_set 3 ''c'', Call_set 7 ''g'', Call_set 1 ''a'',
        Call_delete 6] new_store =
       Some ([Some This, Some This, Some This, Some This, None], s) \<and>
     tree_of s = Some \<lparr>root = Node Black Null 5 ''e'' (Node Red Null 7 ''g'' Null), tsize = 4\<rparr> \<and>
     set_store 5 ''x'' s = Some (Returns This s') \<and>
     tree_of s' = Some \<lparr>root = Node Black (Node Red Null 5 ''x'' Null) 7 ''g'' Null, tsize = 4\<rparr> \<and>
     node_count (Node Black (Node Red Null (5::nat) ''x'' Null) 7 ''g'' Null) = 2"
  by (simp add: store_simps)

end
